theory Spec2Isabelle
  imports Complex_Main
begin

section \<open>Numbers, errors and arrays\<close>

text \<open>
  The arrays of \<^verbatim>\<open>construct_velocity_tree.py\<close> hold float64 numbers. Finite numbers
  are modelled by the reals, with exact arithmetic: rounding and overflow are left out.
  The special values that the code produces and then removes (the quotient by a zero
  total, the logarithm at and below \<open>-1\<close>) are kept: \<open>npfloat\<close> is the result type of
  numpy's division and of \<^verbatim>\<open>log1p\<close>.
\<close>

datatype npfloat = Fin real | PInf | NInf | NaN

datatype error = KeyError | IndexError | ValueError | ImportError | AttributeError | TypeError

text \<open>A dense 2-D array: its number of columns and its rows. An array may have no rows
  and still have columns (shape \<open>(0, k)\<close>).\<close>

record mat =
  ncols :: nat
  rows :: "real list list"

definition nrows :: "mat \<Rightarrow> nat" where
  "nrows M = length (rows M)"

definition wf_mat :: "mat \<Rightarrow> bool" where
  "wf_mat M = list_all (\<lambda>r. length r = ncols M) (rows M)"

definition entry :: "mat \<Rightarrow> nat \<Rightarrow> nat \<Rightarrow> real" where
  "entry M i j = rows M ! i ! j"

text \<open>A scipy sparse matrix: its shape and its stored entries \<open>(row, column, value)\<close>;
  \<^verbatim>\<open>toarray\<close> adds up the values stored at the same position.\<close>

record sparse =
  sp_nrows :: nat
  sp_ncols :: nat
  sp_entries :: "(nat \<times> nat \<times> real) list"

definition toarray :: "sparse \<Rightarrow> mat" where
  "toarray S =
     \<lparr> ncols = sp_ncols S,
       rows = map (\<lambda>i. map (\<lambda>j. sum_list (map (\<lambda>(r, c, v). v)
                      (filter (\<lambda>(r, c, v). r = i \<and> c = j) (sp_entries S))))
                    [0..<sp_ncols S]) [0..<sp_nrows S] \<rparr>"

datatype tmatrix = DenseT mat | SparseT sparse

text \<open>\<^verbatim>\<open>if issparse(transition_matrix): transition_matrix = transition_matrix.toarray()\<close>\<close>

fun dense :: "tmatrix \<Rightarrow> mat" where
  "dense (SparseT S) = toarray S"
| "dense (DenseT M) = M"

subsection \<open>numpy's division, \<^verbatim>\<open>isinf\<close> and \<^verbatim>\<open>nan_to_num\<close>\<close>

text \<open>Division of finite numbers under \<^verbatim>\<open>np.errstate(divide='ignore', invalid='ignore')\<close>:
  \<open>0 / 0\<close> is NaN, \<open>x / 0\<close> is an infinity with the sign of \<open>x\<close>.\<close>

definition np_divide :: "real \<Rightarrow> real \<Rightarrow> npfloat" where
  "np_divide x y =
     (if y = 0 then (if x = 0 then NaN else if 0 < x then PInf else NInf)
      else Fin (x / y))"

fun isinf :: "npfloat \<Rightarrow> bool" where
  "isinf PInf = True"
| "isinf NInf = True"
| "isinf _ = False"

text \<open>\<^verbatim>\<open>res[np.isinf(res)] = 0\<close>, on one entry.\<close>

definition zero_inf :: "npfloat \<Rightarrow> npfloat" where
  "zero_inf x = (if isinf x then Fin 0 else x)"

text \<open>The largest finite float64, which \<^verbatim>\<open>nan_to_num\<close> puts in the place of an infinity.\<close>

definition float_max :: real where
  "float_max = (2 ^ 53 - 1) * 2 ^ 971"

fun nan_to_num :: "npfloat \<Rightarrow> npfloat" where
  "nan_to_num NaN = Fin 0"
| "nan_to_num PInf = Fin float_max"
| "nan_to_num NInf = Fin (- float_max)"
| "nan_to_num (Fin x) = Fin x"

section \<open>The transition matrix of the centers\<close>

text \<open>\<^verbatim>\<open>np.argmax\<close> of one row: the first index of the largest entry. The accumulator is
  the position reached, the best index and the best value so far.\<close>

fun argmax_from :: "real list \<Rightarrow> nat \<Rightarrow> nat \<Rightarrow> real \<Rightarrow> nat" where
  "argmax_from [] i bi bv = bi"
| "argmax_from (x # xs) i bi bv =
     (if bv < x then argmax_from xs (Suc i) i x else argmax_from xs (Suc i) bi bv)"

definition argmax :: "real list \<Rightarrow> nat" where
  "argmax xs = argmax_from (tl xs) 1 0 (hd xs)"

text \<open>\<^verbatim>\<open>clusters[c] = np.where(assignment == c)[0]\<close>: the cells assigned to center \<open>c\<close>, in
  increasing order.\<close>

definition assignment :: "mat \<Rightarrow> nat list" where
  "assignment R = map argmax (rows R)"

definition cluster :: "mat \<Rightarrow> nat \<Rightarrow> nat list" where
  "cluster R c = filter (\<lambda>i. assignment R ! i = c) [0..<nrows R]"

text \<open>The entry \<open>q\<close> of the loop body for \<open>a \<noteq> b\<close>. The fancy index
  \<^verbatim>\<open>transition_matrix[indices_a[:, None], indices_b]\<close> raises IndexError when a cell index
  is outside the transition matrix; it is evaluated only when both clusters are non-empty.\<close>

definition q_entry :: "mat \<Rightarrow> mat \<Rightarrow> nat \<Rightarrow> nat \<Rightarrow> error + real" where
  "q_entry T R a b =
     (let indices_a = cluster R a; indices_b = cluster R b in
      if indices_a \<noteq> [] \<and> indices_b \<noteq> [] then
        (if list_all (\<lambda>i. i < nrows T) indices_a \<and> list_all (\<lambda>j. j < ncols T) indices_b
         then Inr (sum_list (map (\<lambda>i. sum_list (map (\<lambda>j. entry R i a * entry R j b * entry T i j)
                                   indices_b)) indices_a))
         else Inl IndexError)
      else Inr 0)"

text \<open>A list of results is a result: the first error in the order of evaluation, or all
  the values.\<close>

fun sequence :: "(error + 'a) list \<Rightarrow> error + 'a list" where
  "sequence [] = Inr []"
| "sequence (Inl e # xs) = Inl e"
| "sequence (Inr v # xs) = (case sequence xs of Inl e \<Rightarrow> Inl e | Inr vs \<Rightarrow> Inr (v # vs))"

text \<open>Row \<open>a\<close> of \<^verbatim>\<open>transition\<close> after the inner loop: the diagonal entry keeps the zero
  it was initialised with.\<close>

definition transition_row :: "mat \<Rightarrow> mat \<Rightarrow> nat \<Rightarrow> error + real list" where
  "transition_row T R a =
     sequence (map (\<lambda>b. if a = b then Inr 0 else q_entry T R a b) [0..<ncols R])"

text \<open>\<^verbatim>\<open>totals[a]\<close> after the inner loop: starting from zero, every \<open>q\<close> of the row is
  added in turn (the diagonal is skipped by \<^verbatim>\<open>continue\<close>; its entry of the row is zero).\<close>

definition row_total :: "real list \<Rightarrow> real" where
  "row_total row = fold (\<lambda>q total. total + q) row 0"

text \<open>\<^verbatim>\<open>res = transition / totals\<close>, then the two clean-up steps, on one row.\<close>

definition normalize_row :: "real list \<Rightarrow> npfloat list" where
  "normalize_row row =
     map nan_to_num (map zero_inf (map (\<lambda>q. np_divide q (row_total row)) row))"

text \<open>A sparse transition matrix is made dense first (\<^verbatim>\<open>issparse\<close>, \<^verbatim>\<open>toarray\<close>).
  \<^verbatim>\<open>np.argmax(R, axis=1)\<close> raises ValueError when the axis is empty.\<close>

definition compute_center_transition_matrix :: "tmatrix \<Rightarrow> mat \<Rightarrow> error + npfloat list list" where
  "compute_center_transition_matrix transition_matrix R =
     (let T = dense transition_matrix in
      if ncols R = 0 then Inl ValueError
      else case sequence (map (transition_row T R) [0..<ncols R]) of
             Inl e \<Rightarrow> Inl e
           | Inr transition \<Rightarrow> Inr (map normalize_row transition))"

subsection \<open>Sums of floats\<close>

text \<open>Addition with the special values, and the sum of an array from left to right.\<close>

fun np_add :: "npfloat \<Rightarrow> npfloat \<Rightarrow> npfloat" where
  "np_add (Fin x) (Fin y) = Fin (x + y)"
| "np_add NaN _ = NaN"
| "np_add _ NaN = NaN"
| "np_add PInf NInf = NaN"
| "np_add NInf PInf = NaN"
| "np_add PInf _ = PInf"
| "np_add _ PInf = PInf"
| "np_add NInf _ = NInf"
| "np_add _ NInf = NInf"


section \<open>The aggregation in the words of the specification\<close>







text \<open>Two cells and two centers: each cell belongs to its own center. With the
  identity as transition matrix no cell moves to the other center; with the swap
  each cell moves to the other center.\<close>

definition identity2 :: mat where
  "identity2 = \<lparr>ncols = 2, rows = [[1, 0], [0, 1]]\<rparr>"

definition swap2 :: mat where
  "swap2 = \<lparr>ncols = 2, rows = [[0, 1], [1, 0]]\<rparr>"

section \<open>Segments of the tree\<close>

text \<open>Nodes are integers; \<open>-1\<close> in the parent array marks a root. \<^verbatim>\<open>_get_edges\<close> pairs
  each parent with its node when a non-empty parent list is given (\<^verbatim>\<open>if parents:\<close>), and
  otherwise pairs the consecutive elements of the order.\<close>

definition get_edges :: "int list \<Rightarrow> int list option \<Rightarrow> (int \<times> int) list" where
  "get_edges orders parents =
     (case parents of
        Some (p # ps) \<Rightarrow> filter (\<lambda>(parent, node). parent \<noteq> - 1) (zip (p # ps) orders)
      | _ \<Rightarrow> map (\<lambda>i. (orders ! (i - 1), orders ! i)) [1..<length orders])"

text \<open>The loop of \<^verbatim>\<open>_get_path\<close>: from \<open>cur\<close> the parents are followed and appended to the
  path until a node of \<open>end_nodes\<close> is reached. A node without an entry in the dictionary
  raises KeyError; a walk that never reaches an end node does not return, which is the
  value \<open>None\<close> here.\<close>

partial_function (option) follow_parents ::
  "(int \<rightharpoonup> int) \<Rightarrow> int list \<Rightarrow> int \<Rightarrow> int list \<Rightarrow> (error + int list) option" where
  "follow_parents parents_dict end_nodes cur path =
     (if cur \<in> set end_nodes then Some (Inr path)
      else case parents_dict cur of
             None \<Rightarrow> Some (Inl KeyError)
           | Some p \<Rightarrow> follow_parents parents_dict end_nodes p (path @ [p]))"

text \<open>\<^verbatim>\<open>_get_path\<close> returns Python's \<^verbatim>\<open>None\<close> (the inner \<open>None\<close>) when the start is a root.\<close>

definition get_path ::
  "(int \<rightharpoonup> int) \<Rightarrow> int \<Rightarrow> int list \<Rightarrow> (error + int list option) option" where
  "get_path parents_dict start end_nodes =
     (case parents_dict start of
        None \<Rightarrow> Some (Inl KeyError)
      | Some p \<Rightarrow>
          if p = - 1 then Some (Inr None)
          else (case follow_parents parents_dict end_nodes p [start, p] of
                  None \<Rightarrow> None
                | Some (Inl e) \<Rightarrow> Some (Inl e)
                | Some (Inr path) \<Rightarrow> Some (Inr (Some path))))"

text \<open>The dictionary filled by \<^verbatim>\<open>parents_dict[child] = parent\<close> over \<^verbatim>\<open>zip(orders, parents)\<close>.\<close>

definition make_parents_dict :: "int list \<Rightarrow> int list \<Rightarrow> (int \<rightharpoonup> int)" where
  "make_parents_dict orders parents =
     fold (\<lambda>(child, parent) d. d(child \<mapsto> parent)) (zip orders parents) Map.empty"

text \<open>The keys of \<^verbatim>\<open>Counter(parents)\<close>, in the order of their first occurrence.\<close>

definition counter_keys :: "int list \<Rightarrow> int list" where
  "counter_keys xs = rev (remdups (rev xs))"

text \<open>A dictionary is never equal to the integer \<open>-1\<close>: the last conjunct of the
  condition, \<^verbatim>\<open>not (count == 2 and parents_dict == -1)\<close>, always holds.\<close>

definition bifurcation_nodes_of :: "int list \<Rightarrow> int list" where
  "bifurcation_nodes_of parents =
     filter (\<lambda>node. 1 < count_list parents node \<and> node \<noteq> - 1 \<and>
                    \<not> (count_list parents node = 2 \<and> False))
       (counter_keys parents)"

text \<open>\<^verbatim>\<open>end_nodes\<close> is the list \<^verbatim>\<open>bifurcation_nodes\<close> itself, so the test
  \<^verbatim>\<open>node not in bifurcation_nodes\<close> sees the roots appended before.\<close>

definition add_roots :: "int list \<Rightarrow> int list \<Rightarrow> int list" where
  "add_roots root_nodes bifurcation_nodes =
     fold (\<lambda>node end_nodes. if node \<notin> set end_nodes then end_nodes @ [node] else end_nodes)
       root_nodes bifurcation_nodes"

text \<open>The last loop of \<^verbatim>\<open>_get_all_segments\<close>: the paths of the start nodes, in order.\<close>

fun collect_paths ::
  "(int \<rightharpoonup> int) \<Rightarrow> int list \<Rightarrow> int list \<Rightarrow> (error + int list list) option" where
  "collect_paths parents_dict end_nodes [] = Some (Inr [])"
| "collect_paths parents_dict end_nodes (node # nodes) =
     (case get_path parents_dict node end_nodes of
        None \<Rightarrow> None
      | Some (Inl e) \<Rightarrow> Some (Inl e)
      | Some (Inr path) \<Rightarrow>
          (case collect_paths parents_dict end_nodes nodes of
             None \<Rightarrow> None
           | Some (Inl e) \<Rightarrow> Some (Inl e)
           | Some (Inr segments) \<Rightarrow>
               Some (Inr (case path of None \<Rightarrow> segments | Some p \<Rightarrow> p # segments))))"

definition leaf_nodes_of :: "int list \<Rightarrow> int list \<Rightarrow> int list" where
  "leaf_nodes_of orders parents = filter (\<lambda>node. node \<notin> set parents) orders"

text \<open>\<^verbatim>\<open>parents_dict[node]\<close> in the list of the roots raises KeyError for a node of the
  order that has no entry (the parent list is then shorter than the order).\<close>

definition get_all_segments :: "int list \<Rightarrow> int list \<Rightarrow> (error + int list list) option" where
  "get_all_segments orders parents =
     (let leaf_nodes = leaf_nodes_of orders parents in
      if length leaf_nodes = 1 then Some (Inr [orders])
      else
        let parents_dict = make_parents_dict orders parents;
            bifurcation_nodes = bifurcation_nodes_of parents
        in if \<exists>node\<in>set orders. parents_dict node = None then Some (Inl KeyError)
           else
             let root_nodes = filter (\<lambda>node. parents_dict node = Some (- 1)) orders;
                 start_nodes = leaf_nodes @ bifurcation_nodes;
                 end_nodes = add_roots root_nodes bifurcation_nodes
             in collect_paths parents_dict end_nodes start_nodes)"

section \<open>Trees and their segments in the words of the specification\<close>

text \<open>A tree given by its traversal order and parent array: the nodes of the order are
  distinct, none is \<open>-1\<close>, and the parent of a node is \<open>-1\<close> (the node is a root) or a node
  met earlier in the traversal.\<close>

definition tree_order :: "int list \<Rightarrow> int list \<Rightarrow> bool" where
  "tree_order orders parents =
     (length parents = length orders \<and> distinct orders \<and> - 1 \<notin> set orders \<and>
      list_all (\<lambda>i. parents ! i = - 1 \<or> parents ! i \<in> set (take i orders))
        [0..<length orders])"

text \<open>Node \<open>c\<close> has parent \<open>p\<close>; a leaf has no child, a bifurcation node more than one,
  a root no parent.\<close>

definition parent_edge :: "int list \<Rightarrow> int list \<Rightarrow> int \<Rightarrow> int \<Rightarrow> bool" where
  "parent_edge orders parents c p =
     (p \<noteq> - 1 \<and> (\<exists>i<length orders. orders ! i = c \<and> parents ! i = p))"

definition is_leaf :: "int list \<Rightarrow> int list \<Rightarrow> int \<Rightarrow> bool" where
  "is_leaf orders parents v = (v \<in> set orders \<and> v \<notin> set parents)"

definition is_bifurcation :: "int list \<Rightarrow> int \<Rightarrow> bool" where
  "is_bifurcation parents v = (v \<noteq> - 1 \<and> 1 < count_list parents v)"

definition is_root :: "int list \<Rightarrow> int list \<Rightarrow> int \<Rightarrow> bool" where
  "is_root orders parents v = (\<exists>i<length orders. orders ! i = v \<and> parents ! i = - 1)"

text \<open>A segment: a path of at least one edge that starts at a leaf or a bifurcation node,
  goes from each node to its parent, and ends at the first bifurcation node or root on
  the way.\<close>

definition branch_segment :: "int list \<Rightarrow> int list \<Rightarrow> int list \<Rightarrow> bool" where
  "branch_segment orders parents s =
     (2 \<le> length s \<and>
      (is_leaf orders parents (hd s) \<or> is_bifurcation parents (hd s)) \<and>
      (\<forall>k. Suc k < length s \<longrightarrow> parent_edge orders parents (s ! k) (s ! Suc k)) \<and>
      (is_bifurcation parents (last s) \<or> is_root orders parents (last s)) \<and>
      (\<forall>k. 0 < k \<and> Suc k < length s \<longrightarrow>
           \<not> is_bifurcation parents (s ! k) \<and> \<not> is_root orders parents (s ! k)))"

text \<open>Every parent-child edge of the tree is an edge of a segment, in one of the two
  directions.\<close>

definition covers_tree :: "int list \<Rightarrow> int list \<Rightarrow> int list list \<Rightarrow> bool" where
  "covers_tree orders parents segments =
     (\<forall>c p. parent_edge orders parents c p \<longrightarrow>
        (\<exists>s\<in>set segments. (c, p) \<in> set (get_edges s None) \<or> (p, c) \<in> set (get_edges s None)))"

text \<open>The walk from \<open>c\<close> through the parents \<open>ext\<close>: no node before the last is an end
  node, the last one is.\<close>

fun walk_ok :: "int list \<Rightarrow> int list \<Rightarrow> int list \<Rightarrow> int \<Rightarrow> int list \<Rightarrow> bool" where
  "walk_ok orders parents end_nodes c [] = (c \<in> set end_nodes)"
| "walk_ok orders parents end_nodes c (p # ext) =
     (c \<notin> set end_nodes \<and> parent_edge orders parents c p \<and>
      walk_ok orders parents end_nodes p ext)"

section \<open>The score of a segment\<close>

text \<open>\<^verbatim>\<open>np.log1p\<close>: the logarithm of \<open>1 + x\<close>; minus infinity at \<open>-1\<close>, not a number below.\<close>

fun np_log1p :: "npfloat \<Rightarrow> npfloat" where
  "np_log1p (Fin x) = (if - 1 < x then Fin (ln (1 + x)) else if x = - 1 then NInf else NaN)"
| "np_log1p PInf = PInf"
| "np_log1p NInf = NaN"
| "np_log1p NaN = NaN"

text \<open>An integer index into an axis of length \<open>n\<close>: a negative index counts from the end,
  an index outside \<open>[-n, n)\<close> raises IndexError.\<close>

definition np_index :: "nat \<Rightarrow> int \<Rightarrow> error + nat" where
  "np_index n i =
     (if 0 \<le> i \<and> i < int n then Inr (nat i)
      else if - int n \<le> i \<and> i < 0 then Inr (nat (i + int n))
      else Inl IndexError)"

definition lookup2 :: "'a list list \<Rightarrow> int \<Rightarrow> int \<Rightarrow> error + 'a" where
  "lookup2 M r c =
     (case np_index (length M) r of
        Inl e \<Rightarrow> Inl e
      | Inr i \<Rightarrow> (case np_index (length (M ! i)) c of
                    Inl e \<Rightarrow> Inl e
                  | Inr j \<Rightarrow> Inr (M ! i ! j)))"

text \<open>\<^verbatim>\<open>np.cumsum\<close>: the running sums.\<close>

fun cumsum_from :: "npfloat \<Rightarrow> npfloat list \<Rightarrow> npfloat list" where
  "cumsum_from s [] = []"
| "cumsum_from s (x # xs) = np_add s x # cumsum_from (np_add s x) xs"

definition cumsum :: "npfloat list \<Rightarrow> npfloat list" where
  "cumsum xs = cumsum_from (Fin 0) xs"

definition log_transition :: "npfloat list list \<Rightarrow> npfloat list list" where
  "log_transition transition_matrix =
     map (map (\<lambda>x. nan_to_num (zero_inf (np_log1p x)))) transition_matrix"

definition calculate_segment_probability ::
  "npfloat list list \<Rightarrow> (int \<times> int) list \<Rightarrow> error + npfloat list" where
  "calculate_segment_probability transition_matrix segments =
     (let log_transition_matrix = log_transition transition_matrix in
      case sequence (map (\<lambda>(r, c). lookup2 log_transition_matrix r c) segments) of
        Inl e \<Rightarrow> Inl e
      | Inr picked \<Rightarrow> Inr (cumsum picked))"

section \<open>The annotated data object and the heap\<close>

text \<open>
  \<^verbatim>\<open>construct_velocity_tree\<close> reads arrays that \<^verbatim>\<open>adata\<close> refers to and writes into an array
  in place, so the dense 2-D arrays live in a heap: \<^verbatim>\<open>adata\<close> holds their addresses, and
  two entries may refer to the same array. The addresses below \<open>next_free\<close> are allocated.
  The 1-D arrays of the cell order and a sparse transition matrix are never written by
  this code; they are kept as values. Logging (\<^verbatim>\<open>main_info\<close>) is left out.
\<close>

type_synonym addr = nat

datatype tm_ref = DenseRef addr | SparseVal sparse

record cell_order =
  co_R :: "addr option"
  co_centers_order :: "int list option"
  co_centers_parent :: "int list option"
  co_centers_minSpanningTree :: "addr option"

datatype uns_val = CellOrder cell_order | ArrayRef addr

record state =
  obsp :: "string \<rightharpoonup> tm_ref"
  uns :: "string \<rightharpoonup> uns_val"
  heap :: "addr \<Rightarrow> mat"
  next_free :: addr

text \<open>Reading and writing one element \<^verbatim>\<open>a[r, c]\<close> of the array at an address.\<close>

definition read_at :: "(addr \<Rightarrow> mat) \<Rightarrow> addr \<Rightarrow> int \<Rightarrow> int \<Rightarrow> error + real" where
  "read_at h a r c =
     (case np_index (nrows (h a)) r of
        Inl e \<Rightarrow> Inl e
      | Inr i \<Rightarrow> (case np_index (ncols (h a)) c of
                    Inl e \<Rightarrow> Inl e
                  | Inr j \<Rightarrow> Inr (entry (h a) i j)))"

definition set_entry :: "mat \<Rightarrow> nat \<Rightarrow> nat \<Rightarrow> real \<Rightarrow> mat" where
  "set_entry M i j x = M\<lparr>rows := (rows M)[i := (rows M ! i)[j := x]]\<rparr>"

definition write_at ::
  "(addr \<Rightarrow> mat) \<Rightarrow> addr \<Rightarrow> int \<Rightarrow> int \<Rightarrow> real \<Rightarrow> error + (addr \<Rightarrow> mat)" where
  "write_at h a r c x =
     (case np_index (nrows (h a)) r of
        Inl e \<Rightarrow> Inl e
      | Inr i \<Rightarrow> (case np_index (ncols (h a)) c of
                    Inl e \<Rightarrow> Inl e
                  | Inr j \<Rightarrow> Inr (h(a := set_entry (h a) i j x))))"

section \<open>Orienting the tree\<close>

text \<open>Comparison of floats: false whenever an operand is not a number.\<close>

fun np_less :: "npfloat \<Rightarrow> npfloat \<Rightarrow> bool" where
  "np_less (Fin x) (Fin y) = (x < y)"
| "np_less NaN _ = False"
| "np_less _ NaN = False"
| "np_less _ NInf = False"
| "np_less NInf _ = True"
| "np_less PInf _ = False"
| "np_less _ PInf = True"

text \<open>\<^verbatim>\<open>segment_p[-1]\<close> raises IndexError on an empty array.\<close>

definition last_score :: "npfloat list \<Rightarrow> error + npfloat" where
  "last_score segment_p = (if segment_p = [] then Inl IndexError else Inr (last segment_p))"

text \<open>The branch of the \<^verbatim>\<open>if\<close>/\<^verbatim>\<open>elif\<close>/\<^verbatim>\<open>else\<close> that the loop body takes for a segment.\<close>

datatype direction = Forward | Reversed | Undecided

definition segment_direction :: "npfloat list list \<Rightarrow> int list \<Rightarrow> error + direction" where
  "segment_direction center_transition_matrix segment =
     (let edge_pairs = get_edges segment None;
          edge_pairs_reversed = get_edges (rev segment) None
      in case calculate_segment_probability center_transition_matrix edge_pairs of
           Inl e \<Rightarrow> Inl e
         | Inr segment_p \<Rightarrow>
        (case calculate_segment_probability center_transition_matrix edge_pairs_reversed of
           Inl e \<Rightarrow> Inl e
         | Inr segment_p_reversed \<Rightarrow>
        (case last_score segment_p of
           Inl e \<Rightarrow> Inl e
         | Inr forward \<Rightarrow>
        (case last_score segment_p_reversed of
           Inl e \<Rightarrow> Inl e
         | Inr reversed \<Rightarrow>
             Inr (if np_less reversed forward then Forward
                  else if np_less forward reversed then Reversed
                  else Undecided)))))"

text \<open>A step that reads and writes the heap returns the error it raised, if any, and
  the heap it leaves. \<open>and_then\<close> runs a second step after a first one that raised
  nothing.\<close>

type_synonym step = "(addr \<Rightarrow> mat) \<Rightarrow> error option \<times> (addr \<Rightarrow> mat)"

definition and_then :: "step \<Rightarrow> step \<Rightarrow> step" where
  "and_then first second h =
     (case first h of (Some e, h') \<Rightarrow> (Some e, h') | (None, h') \<Rightarrow> second h')"

text \<open>\<^verbatim>\<open>dst[r, c] = max(src[r1, c1], src[r2, c2])\<close>, \<^verbatim>\<open>dst[r, c] = src[r1, c1]\<close> and
  \<^verbatim>\<open>dst[r, c] = 0\<close>; the right-hand side is evaluated before the store.\<close>

definition store_max :: "addr \<Rightarrow> addr \<Rightarrow> int \<times> int \<Rightarrow> int \<times> int \<Rightarrow> int \<times> int \<Rightarrow> step" where
  "store_max dst src rc rc1 rc2 h =
     (case read_at h src (fst rc1) (snd rc1) of
        Inl e \<Rightarrow> (Some e, h)
      | Inr x \<Rightarrow> (case read_at h src (fst rc2) (snd rc2) of
                    Inl e \<Rightarrow> (Some e, h)
                  | Inr y \<Rightarrow> (case write_at h dst (fst rc) (snd rc) (max x y) of
                                Inl e \<Rightarrow> (Some e, h)
                              | Inr h' \<Rightarrow> (None, h'))))"

definition store_copy :: "addr \<Rightarrow> addr \<Rightarrow> int \<times> int \<Rightarrow> step" where
  "store_copy dst src rc h =
     (case read_at h src (fst rc) (snd rc) of
        Inl e \<Rightarrow> (Some e, h)
      | Inr x \<Rightarrow> (case write_at h dst (fst rc) (snd rc) x of
                    Inl e \<Rightarrow> (Some e, h)
                  | Inr h' \<Rightarrow> (None, h')))"

definition store_zero :: "addr \<Rightarrow> int \<times> int \<Rightarrow> step" where
  "store_zero dst rc h =
     (case write_at h dst (fst rc) (snd rc) 0 of
        Inl e \<Rightarrow> (Some e, h)
      | Inr h' \<Rightarrow> (None, h'))"

text \<open>The body of the three inner loops, for one edge pair \<open>(r, c)\<close>; \<open>vt\<close> is the address
  of \<^verbatim>\<open>velocity_tree\<close> and \<open>dvt\<close> the address of \<^verbatim>\<open>directed_velocity_tree\<close>.\<close>

fun orient_edge :: "direction \<Rightarrow> addr \<Rightarrow> addr \<Rightarrow> int \<times> int \<Rightarrow> step" where
  "orient_edge Forward vt dvt (r, c) =
     and_then (store_max dvt vt (r, c) (r, c) (c, r)) (store_zero dvt (c, r))"
| "orient_edge Reversed vt dvt (r, c) =
     and_then (store_max dvt vt (c, r) (r, c) (c, r)) (store_zero dvt (r, c))"
| "orient_edge Undecided vt dvt (r, c) =
     and_then (store_copy dvt vt (c, r)) (store_copy dvt vt (r, c))"

fun orient_edges :: "direction \<Rightarrow> addr \<Rightarrow> addr \<Rightarrow> (int \<times> int) list \<Rightarrow> step" where
  "orient_edges dir vt dvt [] h = (None, h)"
| "orient_edges dir vt dvt (rc # edge_pairs) h =
     and_then (orient_edge dir vt dvt rc) (orient_edges dir vt dvt edge_pairs) h"

text \<open>The loop over the segments.\<close>

fun orient_segments :: "npfloat list list \<Rightarrow> addr \<Rightarrow> addr \<Rightarrow> int list list \<Rightarrow> step" where
  "orient_segments center_transition_matrix vt dvt [] h = (None, h)"
| "orient_segments center_transition_matrix vt dvt (segment # segments) h =
     (case segment_direction center_transition_matrix segment of
        Inl e \<Rightarrow> (Some e, h)
      | Inr dir \<Rightarrow>
          and_then (orient_edges dir vt dvt (get_edges segment None))
            (orient_segments center_transition_matrix vt dvt segments) h)"

text \<open>\<^verbatim>\<open>np.argsort\<close>: the indices that sort the array. Equal elements are kept in their
  order here; numpy's default sort leaves their order open.\<close>

definition argsort :: "int list \<Rightarrow> int list" where
  "argsort xs = map int (sort_key (\<lambda>i. xs ! i) [0..<length xs])"

text \<open>\<^verbatim>\<open>centers_parent[node]\<close>\<close>

definition index1 :: "int list \<Rightarrow> int \<Rightarrow> error + int" where
  "index1 xs i = (case np_index (length xs) i of Inl e \<Rightarrow> Inl e | Inr k \<Rightarrow> Inr (xs ! k))"

text \<open>\<^verbatim>\<open>velocity_tree.copy()\<close>: a new array with the same content, at a fresh address.\<close>

definition copy_array :: "addr \<Rightarrow> state \<Rightarrow> addr \<times> state" where
  "copy_array a s =
     (next_free s, s\<lparr>heap := (heap s)(next_free s := heap s a), next_free := Suc (next_free s)\<rparr>)"

text \<open>The transition matrix that an entry of \<^verbatim>\<open>obsp\<close> refers to.\<close>

definition fetch_transition :: "state \<Rightarrow> tm_ref \<Rightarrow> tmatrix" where
  "fetch_transition s ref = (case ref of DenseRef a \<Rightarrow> DenseT (heap s a) | SparseVal S \<Rightarrow> SparseT S)"

text \<open>
  The first part of \<^verbatim>\<open>construct_velocity_tree\<close>: the two guards, and the values that the
  lines after them bind to \<^verbatim>\<open>transition_matrix\<close>, \<^verbatim>\<open>R\<close>, \<^verbatim>\<open>orders\<close>, \<^verbatim>\<open>parents\<close> and
  \<^verbatim>\<open>velocity_tree\<close>. A key that the cell order lacks raises KeyError; indexing an array
  of \<^verbatim>\<open>uns\<close> with a string raises IndexError.
\<close>

definition read_inputs ::
  "state \<Rightarrow> string \<Rightarrow> error + (tm_ref \<times> addr \<times> int list \<times> int list \<times> addr)" where
  "read_inputs adata transition_matrix_key =
     (if transition_matrix_key @ ''_transition_matrix'' \<notin> dom (obsp adata) then Inl KeyError
      else if ''cell_order'' \<notin> dom (uns adata) then Inl KeyError
      else
        let transition_matrix = the (obsp adata (transition_matrix_key @ ''_transition_matrix''))
        in case the (uns adata ''cell_order'') of
             ArrayRef a \<Rightarrow> Inl IndexError
           | CellOrder cell_order \<Rightarrow>
        (case co_R cell_order of
           None \<Rightarrow> Inl KeyError
         | Some R \<Rightarrow>
        (case co_centers_order cell_order of
           None \<Rightarrow> Inl KeyError
         | Some centers_order \<Rightarrow>
        let orders = argsort centers_order in
        (case co_centers_parent cell_order of
           None \<Rightarrow> Inl KeyError
         | Some centers_parent \<Rightarrow>
        (case sequence (map (index1 centers_parent) orders) of
           Inl e \<Rightarrow> Inl e
         | Inr parents \<Rightarrow>
        (case co_centers_minSpanningTree cell_order of
           None \<Rightarrow> Inl KeyError
         | Some velocity_tree \<Rightarrow>
             Inr (transition_matrix, R, orders, parents, velocity_tree)))))))"

text \<open>
  \<^verbatim>\<open>construct_velocity_tree\<close>. The result is \<open>None\<close> when the walk of a segment never
  ends; otherwise it is the address of the returned array or the error raised, with the
  state that the call leaves.
\<close>

definition construct_velocity_tree :: "state \<Rightarrow> string \<Rightarrow> ((error + addr) \<times> state) option" where
  "construct_velocity_tree adata transition_matrix_key =
     (case read_inputs adata transition_matrix_key of
        Inl e \<Rightarrow> Some (Inl e, adata)
      | Inr (transition_matrix, R, orders, parents, velocity_tree) \<Rightarrow>
        let (directed_velocity_tree, adata1) = copy_array velocity_tree adata in
        (case get_all_segments orders parents of
           None \<Rightarrow> None
         | Some (Inl e) \<Rightarrow> Some (Inl e, adata1)
         | Some (Inr segments) \<Rightarrow>
        (case compute_center_transition_matrix (fetch_transition adata1 transition_matrix)
                (heap adata1 R) of
           Inl e \<Rightarrow> Some (Inl e, adata1)
         | Inr center_transition_matrix \<Rightarrow>
        (case orient_segments center_transition_matrix velocity_tree directed_velocity_tree
                segments (heap adata1) of
           (Some e, h) \<Rightarrow> Some (Inl e, adata1\<lparr>heap := h\<rparr>)
         | (None, h) \<Rightarrow>
             Some (Inr directed_velocity_tree,
                   adata1\<lparr>heap := h,
                          uns := (uns adata1)(''directed_velocity_tree'' \<mapsto>
                                   ArrayRef directed_velocity_tree)\<rparr>)))))"

section \<open>The orientation in the words of the specification\<close>

text \<open>What a branch of the loop body leaves at the two entries of an edge \<open>(r, c)\<close>: in
  \<open>D\<close>, the directed array, with \<open>V\<close> the undirected one. Forward: the entry \<open>(r, c)\<close> is
  the larger of the two weights and the entry \<open>(c, r)\<close> is zero; reversed: the other way
  round; undecided: both entries are the original ones.\<close>

definition oriented :: "direction \<Rightarrow> mat \<Rightarrow> mat \<Rightarrow> int \<Rightarrow> int \<Rightarrow> bool" where
  "oriented dir V D r c =
     (case dir of
        Forward \<Rightarrow>
          entry D (nat r) (nat c) = max (entry V (nat r) (nat c)) (entry V (nat c) (nat r)) \<and>
          entry D (nat c) (nat r) = 0
      | Reversed \<Rightarrow>
          entry D (nat c) (nat r) = max (entry V (nat r) (nat c)) (entry V (nat c) (nat r)) \<and>
          entry D (nat r) (nat c) = 0
      | Undecided \<Rightarrow>
          entry D (nat r) (nat c) = entry V (nat r) (nat c) \<and>
          entry D (nat c) (nat r) = entry V (nat c) (nat r))"

text \<open>The loop over the segments as one sequence of edge steps, each with the direction
  of its segment.\<close>

fun run_events :: "addr \<Rightarrow> addr \<Rightarrow> (direction \<times> int \<times> int) list \<Rightarrow> step" where
  "run_events vt dvt [] h = (None, h)"
| "run_events vt dvt ((dir, rc) # events) h =
     and_then (orient_edge dir vt dvt rc) (run_events vt dvt events) h"

definition direction_of :: "npfloat list list \<Rightarrow> int list \<Rightarrow> direction" where
  "direction_of center_transition_matrix segment =
     (case segment_direction center_transition_matrix segment of
        Inr dir \<Rightarrow> dir
      | Inl e \<Rightarrow> Undecided)"

definition events_of :: "npfloat list list \<Rightarrow> int list list \<Rightarrow> (direction \<times> int \<times> int) list" where
  "events_of center_transition_matrix segments =
     concat (map (\<lambda>segment. map (Pair (direction_of center_transition_matrix segment))
                                (get_edges segment None)) segments)"

text \<open>The entries of the array that the step of an edge writes.\<close>

definition touched :: "int \<times> int \<Rightarrow> (nat \<times> nat) set" where
  "touched rc = {(nat (fst rc), nat (snd rc)), (nat (snd rc), nat (fst rc))}"

text \<open>The transition probability from center \<open>a\<close> to center \<open>b\<close>, the sum of the
  logarithms of the probabilities along the edges of a segment (the log-likelihood of the
  segment under a first-order Markov assumption), and the sum of \<open>log (1 + p)\<close> along the
  edges.\<close>

definition probability :: "npfloat list list \<Rightarrow> int \<Rightarrow> int \<Rightarrow> real" where
  "probability center_transition_matrix a b =
     (case lookup2 center_transition_matrix a b of Inr (Fin p) \<Rightarrow> p | _ \<Rightarrow> 0)"


definition log1p_score :: "npfloat list list \<Rightarrow> (int \<times> int) list \<Rightarrow> real" where
  "log1p_score center_transition_matrix edges =
     (\<Sum>(a, b)\<leftarrow>edges. ln (1 + probability center_transition_matrix a b))"

text \<open>A matrix of probabilities: every entry is a finite number that is not negative.\<close>

definition probabilities :: "npfloat list list \<Rightarrow> bool" where
  "probabilities center_transition_matrix =
     list_all (list_all (\<lambda>x. case x of Fin p \<Rightarrow> 0 \<le> p | _ \<Rightarrow> False)) center_transition_matrix"

text \<open>Every array that \<^verbatim>\<open>adata\<close> refers to is allocated.\<close>

definition allocated :: "state \<Rightarrow> bool" where
  "allocated adata =
     ((\<forall>k a. obsp adata k = Some (DenseRef a) \<longrightarrow> a < next_free adata) \<and>
      (\<forall>k a. uns adata k = Some (ArrayRef a) \<longrightarrow> a < next_free adata) \<and>
      (\<forall>k co a. uns adata k = Some (CellOrder co) \<longrightarrow>
          co_R co = Some a \<or> co_centers_minSpanningTree co = Some a \<longrightarrow> a < next_free adata))"

section \<open>A small data object\<close>

text \<open>Two cells, two centers, each cell in its own center; center 0 is the root and
  center 1 its child; the tree has the one edge between them, with weight 3 in both
  directions. The transition matrix is left open: with \<open>one_way2\<close> cell 0 moves to cell 1
  and cell 1 nowhere.\<close>

definition one_way2 :: mat where
  "one_way2 = \<lparr>ncols = 2, rows = [[0, 1], [0, 0]]\<rparr>"

definition tree2 :: mat where
  "tree2 = \<lparr>ncols = 2, rows = [[0, 3], [3, 0]]\<rparr>"

definition empty_mat :: mat where
  "empty_mat = \<lparr>ncols = 0, rows = []\<rparr>"

definition tiny_cell_order :: cell_order where
  "tiny_cell_order =
     \<lparr>co_R = Some 1, co_centers_order = Some [0, 1], co_centers_parent = Some [- 1, 0],
      co_centers_minSpanningTree = Some 2\<rparr>"

definition tiny_adata :: "mat \<Rightarrow> cell_order \<Rightarrow> state" where
  "tiny_adata T cell_order =
     \<lparr>obsp = [''pearson_transition_matrix'' \<mapsto> DenseRef 0],
      uns = [''cell_order'' \<mapsto> CellOrder cell_order],
      heap = (\<lambda>a. empty_mat)(0 := T, 1 := identity2, 2 := tree2),
      next_free = 3\<rparr>"

text \<open>The same object after a call that returned the array \<open>directed\<close>.\<close>

definition tiny_result :: "mat \<Rightarrow> mat \<Rightarrow> state" where
  "tiny_result T directed =
     \<lparr>obsp = [''pearson_transition_matrix'' \<mapsto> DenseRef 0],
      uns = [''cell_order'' \<mapsto> CellOrder tiny_cell_order,
             ''directed_velocity_tree'' \<mapsto> ArrayRef 3],
      heap = (\<lambda>a. empty_mat)(0 := T, 1 := identity2, 2 := tree2, 3 := directed),
      next_free = 4\<rparr>"

section \<open>The Scribe wrapper\<close>


































section \<open>Properties of the center transition matrix\<close>


lemma sequence_all_Inr:
  "\<forall>x\<in>set xs. \<exists>v. x = Inr v \<Longrightarrow> \<exists>vs. sequence xs = Inr vs"
  by (induction xs) auto




























subsection \<open>The two-cell examples, evaluated\<close>

lemma upt2: "[0..<2] = [0, Suc 0]"
  by (simp add: upt_rec numeral_2_eq_2)

lemmas center_eval = compute_center_transition_matrix_def transition_row_def q_entry_def
  cluster_def assignment_def argmax_def nrows_def upt2 entry_def normalize_row_def
  row_total_def np_divide_def zero_inf_def Let_def identity2_def swap2_def

lemma identity2_value:
  "compute_center_transition_matrix (DenseT identity2) identity2 =
     Inr [[Fin 0, Fin 0], [Fin 0, Fin 0]]"
  by (simp add: center_eval)












section \<open>Properties of the segments\<close>

lemma fold_update_other:
  assumes f: "\<And>k v d. f (k, v) d = d(k \<mapsto> v)"
  shows "k \<notin> fst ` set kvs \<Longrightarrow> fold f kvs m k = m k"
  by (induction kvs arbitrary: m) (auto simp: f)

lemma fold_update_nth:
  assumes f: "\<And>k v d. f (k, v) d = d(k \<mapsto> v)"
  shows "length ps = length os \<Longrightarrow> distinct os \<Longrightarrow> i < length os \<Longrightarrow>
   fold f (zip os ps) m (os ! i) = Some (ps ! i)"
proof (induction os arbitrary: ps m i)
  case Nil
  then show ?case by simp
next
  case (Cons x os)
  then obtain p ps' where ps: "ps = p # ps'" by (cases ps) auto
  show ?case
  proof (cases i)
    case 0
    have "x \<notin> fst ` set (zip os ps')" using Cons.prems(2) by (auto dest: set_zip_leftD)
    then have "fold f (zip os ps') (m(x \<mapsto> p)) x = (m(x \<mapsto> p)) x"
      by (rule fold_update_other[OF f])
    then show ?thesis using 0 ps by (simp add: f)
  next
    case (Suc j)
    then show ?thesis using Cons ps by (simp add: f)
  qed
qed

lemma parents_dict_nth:
  assumes "tree_order orders parents" "i < length orders"
  shows "make_parents_dict orders parents (orders ! i) = Some (parents ! i)"
  unfolding make_parents_dict_def
  by (rule fold_update_nth) (use assms in \<open>simp_all add: tree_order_def\<close>)

lemma tree_order_parent:
  assumes "tree_order orders parents" "i < length orders" "parents ! i \<noteq> - 1"
  shows "\<exists>j<i. orders ! j = parents ! i"
proof -
  from assms have "parents ! i \<in> set (take i orders)"
    by (auto simp: tree_order_def list_all_iff)
  then show ?thesis using assms(2) by (auto simp: in_set_conv_nth)
qed

lemma set_bifurcation_nodes: "v \<in> set (bifurcation_nodes_of parents) \<longleftrightarrow> is_bifurcation parents v"
proof -
  have "v \<in> set parents" if "1 < count_list parents v"
    using that count_list_0_iff[of parents v] by auto
  then show ?thesis
    by (auto simp: bifurcation_nodes_of_def counter_keys_def is_bifurcation_def)
qed

lemma set_add_roots: "set (add_roots roots bs) = set roots \<union> set bs"
proof -
  have "set (fold (\<lambda>node end_nodes. if node \<notin> set end_nodes then end_nodes @ [node] else end_nodes)
       roots bs) = set roots \<union> set bs"
    by (induction roots arbitrary: bs) auto
  then show ?thesis by (simp add: add_roots_def)
qed

lemma follow_parents_tree:
  assumes tree: "tree_order orders parents"
    and roots: "\<forall>v. is_root orders parents v \<longrightarrow> v \<in> set ends"
    and i: "i < length orders"
  shows "\<exists>ext. follow_parents (make_parents_dict orders parents) ends (orders ! i) path
                 = Some (Inr (path @ ext)) \<and>
               walk_ok orders parents ends (orders ! i) ext"
  using i
proof (induction i arbitrary: path rule: less_induct)
  case (less i)
  show ?case
  proof (cases "orders ! i \<in> set ends")
    case True
    then show ?thesis by (intro exI[of _ "[]"]) (simp add: follow_parents.simps)
  next
    case False
    have "\<not> is_root orders parents (orders ! i)" using False roots by blast
    then have np: "parents ! i \<noteq> - 1" using less.prems by (auto simp: is_root_def)
    from tree_order_parent[OF tree less.prems np] obtain j where j: "j < i" "orders ! j = parents ! i"
      by blast
    then have jl: "j < length orders" using less.prems by simp
    from less.IH[OF j(1) jl, of "path @ [parents ! i]"] obtain ext where
      ext: "follow_parents (make_parents_dict orders parents) ends (parents ! i) (path @ [parents ! i])
             = Some (Inr ((path @ [parents ! i]) @ ext))"
         "walk_ok orders parents ends (parents ! i) ext"
      using j(2) by auto
    have pe: "parent_edge orders parents (orders ! i) (parents ! i)"
      using np less.prems by (auto simp: parent_edge_def)
    show ?thesis
      apply (intro exI[of _ "parents ! i # ext"])
      apply (subst follow_parents.simps)
      using False ext pe parents_dict_nth[OF tree less.prems] by simp
  qed
qed


lemma walk_ok_props:
  "walk_ok orders parents ends c ext \<Longrightarrow>
   last (c # ext) \<in> set ends \<and>
   (\<forall>k. Suc k < length (c # ext) \<longrightarrow>
        parent_edge orders parents ((c # ext) ! k) ((c # ext) ! Suc k) \<and>
        (c # ext) ! k \<notin> set ends)"
proof (induction ext arbitrary: c)
  case Nil
  then show ?case by simp
next
  case (Cons p ext)
  then have c: "c \<notin> set ends" "parent_edge orders parents c p"
    and w: "walk_ok orders parents ends p ext" by auto
  from Cons.IH[OF w] have
    l: "last (p # ext) \<in> set ends" and
    r: "\<And>k. Suc k < length (p # ext) \<Longrightarrow>
        parent_edge orders parents ((p # ext) ! k) ((p # ext) ! Suc k) \<and> (p # ext) ! k \<notin> set ends"
    by auto
  have "parent_edge orders parents ((c # p # ext) ! k) ((c # p # ext) ! Suc k) \<and>
        (c # p # ext) ! k \<notin> set ends" if "Suc k < length (c # p # ext)" for k
  proof (cases k)
    case 0
    with c show ?thesis by simp
  next
    case (Suc k')
    with that r[of k'] show ?thesis by simp
  qed
  with l show ?case by simp
qed

lemma get_path_tree:
  assumes tree: "tree_order orders parents"
    and roots: "\<forall>v. is_root orders parents v \<longrightarrow> v \<in> set ends"
    and i: "i < length orders"
  shows "(parents ! i = - 1 \<longrightarrow>
            get_path (make_parents_dict orders parents) (orders ! i) ends = Some (Inr None)) \<and>
         (parents ! i \<noteq> - 1 \<longrightarrow>
            (\<exists>ext. get_path (make_parents_dict orders parents) (orders ! i) ends
                     = Some (Inr (Some (orders ! i # parents ! i # ext))) \<and>
                   walk_ok orders parents ends (parents ! i) ext))"
proof (cases "parents ! i = - 1")
  case True
  then show ?thesis by (simp add: get_path_def parents_dict_nth[OF tree i])
next
  case False
  from tree_order_parent[OF tree i False] obtain j where j: "j < i" "orders ! j = parents ! i"
    by blast
  then have jl: "j < length orders" using i by simp
  from follow_parents_tree[OF tree roots jl, of "[orders ! i, parents ! i]"] j(2)
  obtain ext where
    "follow_parents (make_parents_dict orders parents) ends (parents ! i) [orders ! i, parents ! i]
       = Some (Inr ([orders ! i, parents ! i] @ ext))"
    "walk_ok orders parents ends (parents ! i) ext" by auto
  with False show ?thesis by (simp add: get_path_def parents_dict_nth[OF tree i])
qed

lemma collect_paths_tree:
  assumes tree: "tree_order orders parents"
    and roots: "\<forall>v. is_root orders parents v \<longrightarrow> v \<in> set ends"
  shows "set starts \<subseteq> set orders \<Longrightarrow>
     \<exists>segs. collect_paths (make_parents_dict orders parents) ends starts = Some (Inr segs) \<and>
       (\<forall>s\<in>set segs. \<exists>i<length orders. \<exists>ext. orders ! i \<in> set starts \<and> parents ! i \<noteq> - 1 \<and>
            s = orders ! i # parents ! i # ext \<and> walk_ok orders parents ends (parents ! i) ext) \<and>
       (\<forall>i<length orders. orders ! i \<in> set starts \<longrightarrow> parents ! i \<noteq> - 1 \<longrightarrow>
            (\<exists>s\<in>set segs. \<exists>ext. s = orders ! i # parents ! i # ext))"
proof (induction starts)
  case Nil
  then show ?case by simp
next
  case (Cons x starts)
  then obtain i where i: "i < length orders" "x = orders ! i" by (auto simp: in_set_conv_nth)
  from Cons obtain segs where
    segs: "collect_paths (make_parents_dict orders parents) ends starts = Some (Inr segs)"
    and A: "\<forall>s\<in>set segs. \<exists>i<length orders. \<exists>ext. orders ! i \<in> set starts \<and> parents ! i \<noteq> - 1 \<and>
            s = orders ! i # parents ! i # ext \<and> walk_ok orders parents ends (parents ! i) ext"
    and B: "\<forall>i<length orders. orders ! i \<in> set starts \<longrightarrow> parents ! i \<noteq> - 1 \<longrightarrow>
            (\<exists>s\<in>set segs. \<exists>ext. s = orders ! i # parents ! i # ext)"
    by auto
  have d: "distinct orders" using tree by (simp add: tree_order_def)
  show ?case
  proof (cases "parents ! i = - 1")
    case True
    with get_path_tree[OF tree roots i(1)] have
      "get_path (make_parents_dict orders parents) x ends = Some (Inr None)" using i(2) by simp
    then have c: "collect_paths (make_parents_dict orders parents) ends (x # starts) = Some (Inr segs)"
      using segs by simp
    have B': "\<forall>i'<length orders. orders ! i' \<in> set (x # starts) \<longrightarrow> parents ! i' \<noteq> - 1 \<longrightarrow>
            (\<exists>s\<in>set segs. \<exists>ext. s = orders ! i' # parents ! i' # ext)"
    proof (intro allI impI)
      fix i' assume h: "i' < length orders" "orders ! i' \<in> set (x # starts)" "parents ! i' \<noteq> - 1"
      have "i' \<noteq> i" using h(3) True by auto
      then have "orders ! i' \<noteq> x" using d i h(1) by (auto simp: nth_eq_iff_index_eq)
      with h B show "\<exists>s\<in>set segs. \<exists>ext. s = orders ! i' # parents ! i' # ext" by auto
    qed
    from A have A': "\<forall>s\<in>set segs. \<exists>i<length orders. \<exists>ext. orders ! i \<in> set (x # starts) \<and>
            parents ! i \<noteq> - 1 \<and>
            s = orders ! i # parents ! i # ext \<and> walk_ok orders parents ends (parents ! i) ext"
      by fastforce
    from c A' B' show ?thesis by blast
  next
    case False
    with get_path_tree[OF tree roots i(1)] obtain ext where
      g: "get_path (make_parents_dict orders parents) x ends
            = Some (Inr (Some (orders ! i # parents ! i # ext)))"
      and w: "walk_ok orders parents ends (parents ! i) ext" using i(2) by auto
    let ?s = "orders ! i # parents ! i # ext"
    have c: "collect_paths (make_parents_dict orders parents) ends (x # starts)
              = Some (Inr (?s # segs))"
      using segs g by simp
    have A': "\<forall>s\<in>set (?s # segs). \<exists>i<length orders. \<exists>ext. orders ! i \<in> set (x # starts) \<and>
            parents ! i \<noteq> - 1 \<and>
            s = orders ! i # parents ! i # ext \<and> walk_ok orders parents ends (parents ! i) ext"
    proof
      fix s assume "s \<in> set (?s # segs)"
      then consider "s = ?s" | "s \<in> set segs" by auto
      then show "\<exists>i<length orders. \<exists>ext. orders ! i \<in> set (x # starts) \<and>
            parents ! i \<noteq> - 1 \<and>
            s = orders ! i # parents ! i # ext \<and> walk_ok orders parents ends (parents ! i) ext"
      proof cases
        case 1
        then show ?thesis using i False w by auto
      next
        case 2
        with A show ?thesis by fastforce
      qed
    qed
    have B': "\<forall>i'<length orders. orders ! i' \<in> set (x # starts) \<longrightarrow> parents ! i' \<noteq> - 1 \<longrightarrow>
            (\<exists>s\<in>set (?s # segs). \<exists>ext. s = orders ! i' # parents ! i' # ext)"
    proof (intro allI impI)
      fix i' assume h: "i' < length orders" "orders ! i' \<in> set (x # starts)" "parents ! i' \<noteq> - 1"
      show "\<exists>s\<in>set (?s # segs). \<exists>ext. s = orders ! i' # parents ! i' # ext"
      proof (cases "i' = i")
        case True
        then show ?thesis by simp
      next
        case False
        then have "orders ! i' \<noteq> x" using d i h(1) by (auto simp: nth_eq_iff_index_eq)
        with h B show ?thesis by auto
      qed
    qed
    from c A' B' show ?thesis by blast
  qed
qed


lemma parent_in_orders:
  assumes tree: "tree_order orders parents" and "v \<in> set parents" "v \<noteq> - 1"
  shows "v \<in> set orders"
proof -
  from assms(2) obtain j where j: "j < length parents" "parents ! j = v"
    by (auto simp: in_set_conv_nth)
  then have "j < length orders" using tree by (simp add: tree_order_def)
  from tree_order_parent[OF tree this] j(2) assms(3) obtain k where "k < j" "orders ! k = v" by auto
  moreover from this \<open>j < length orders\<close> have "k < length orders" by simp
  ultimately show ?thesis by (metis nth_mem)
qed

lemma is_root_dict:
  assumes tree: "tree_order orders parents" and "v \<in> set orders"
  shows "make_parents_dict orders parents v = Some (- 1) \<longleftrightarrow> is_root orders parents v"
proof -
  from assms(2) obtain i where i: "i < length orders" "orders ! i = v"
    by (auto simp: in_set_conv_nth)
  have d: "distinct orders" using tree by (simp add: tree_order_def)
  have "is_root orders parents v \<longleftrightarrow> parents ! i = - 1"
    using i d by (auto simp: is_root_def nth_eq_iff_index_eq)
  then show ?thesis using parents_dict_nth[OF tree i(1)] i(2) by simp
qed

lemma parent_edge_unique:
  assumes tree: "tree_order orders parents" and "i < length orders"
    and "parent_edge orders parents (orders ! i) p"
  shows "p = parents ! i"
proof -
  have d: "distinct orders" using tree by (simp add: tree_order_def)
  from assms(3) obtain i' where "i' < length orders" "orders ! i' = orders ! i" "parents ! i' = p"
    by (auto simp: parent_edge_def)
  with d assms(2) show ?thesis by (auto simp: nth_eq_iff_index_eq)
qed

lemma segment_shape:
  assumes ends: "\<forall>v. v \<in> set ends \<longleftrightarrow> is_bifurcation parents v \<or> is_root orders parents v"
    and start: "is_leaf orders parents c \<or> is_bifurcation parents c"
    and edge: "parent_edge orders parents c p"
    and walk: "walk_ok orders parents ends p ext"
  shows "branch_segment orders parents (c # p # ext)"
proof -
  from walk_ok_props[OF walk] have
    l: "last (p # ext) \<in> set ends" and
    r: "\<And>k. Suc k < length (p # ext) \<Longrightarrow>
        parent_edge orders parents ((p # ext) ! k) ((p # ext) ! Suc k) \<and> (p # ext) ! k \<notin> set ends"
    by auto
  have 1: "parent_edge orders parents ((c # p # ext) ! k) ((c # p # ext) ! Suc k)"
    if "Suc k < length (c # p # ext)" for k
  proof (cases k)
    case 0
    with edge show ?thesis by simp
  next
    case (Suc k')
    with that r[of k'] show ?thesis by simp
  qed
  have 2: "\<not> is_bifurcation parents ((c # p # ext) ! k) \<and> \<not> is_root orders parents ((c # p # ext) ! k)"
    if "0 < k" "Suc k < length (c # p # ext)" for k
  proof -
    from that obtain k' where k': "k = Suc k'" by (cases k) auto
    with that r[of k'] have "(c # p # ext) ! k \<notin> set ends" by simp
    with ends show ?thesis by blast
  qed
  have 3: "is_bifurcation parents (last (c # p # ext)) \<or> is_root orders parents (last (c # p # ext))"
    using l ends by simp
  show ?thesis
    unfolding branch_segment_def using start 1 2 3 by simp
qed

lemma segments_many_leaves:
  assumes tree: "tree_order orders parents"
    and many: "length (leaf_nodes_of orders parents) \<noteq> 1"
  shows "\<exists>segs. get_all_segments orders parents = Some (Inr segs) \<and>
           (\<forall>s\<in>set segs. branch_segment orders parents s) \<and>
           (\<forall>i<length orders. parents ! i \<noteq> - 1 \<longrightarrow>
              (\<exists>s\<in>set segs. \<exists>k. Suc k < length s \<and> s ! k = orders ! i \<and> s ! Suc k = parents ! i))"
proof -
  let ?pd = "make_parents_dict orders parents"
  let ?bif = "bifurcation_nodes_of parents"
  let ?roots = "filter (\<lambda>node. ?pd node = Some (- 1)) orders"
  let ?ends = "add_roots ?roots ?bif"
  let ?starts = "leaf_nodes_of orders parents @ ?bif"
  have d: "distinct orders" using tree by (simp add: tree_order_def)
  have total: "\<not> (\<exists>node\<in>set orders. ?pd node = None)"
    using parents_dict_nth[OF tree] by (auto simp: in_set_conv_nth)
  have ends: "\<forall>v. v \<in> set ?ends \<longleftrightarrow> is_bifurcation parents v \<or> is_root orders parents v"
  proof
    fix v
    have "is_root orders parents v \<Longrightarrow> v \<in> set orders" by (auto simp: is_root_def)
    then show "v \<in> set ?ends \<longleftrightarrow> is_bifurcation parents v \<or> is_root orders parents v"
      using is_root_dict[OF tree] by (auto simp: set_add_roots set_bifurcation_nodes)
  qed
  then have roots: "\<forall>v. is_root orders parents v \<longrightarrow> v \<in> set ?ends" by blast
  have bif_in: "v \<in> set orders" if "is_bifurcation parents v" for v
  proof -
    from that have "v \<in> set parents" "v \<noteq> - 1"
      using count_list_0_iff[of parents v] by (auto simp: is_bifurcation_def)
    then show ?thesis by (rule parent_in_orders[OF tree])
  qed
  have starts: "\<forall>v. v \<in> set ?starts \<longleftrightarrow> is_leaf orders parents v \<or> is_bifurcation parents v"
    using bif_in by (auto simp: leaf_nodes_of_def is_leaf_def set_bifurcation_nodes)
  then have sub: "set ?starts \<subseteq> set orders" using bif_in by (auto simp: is_leaf_def)
  from collect_paths_tree[OF tree roots sub] obtain segs where
    c: "collect_paths ?pd ?ends ?starts = Some (Inr segs)"
    and A: "\<forall>s\<in>set segs. \<exists>i<length orders. \<exists>ext. orders ! i \<in> set ?starts \<and> parents ! i \<noteq> - 1 \<and>
            s = orders ! i # parents ! i # ext \<and> walk_ok orders parents ?ends (parents ! i) ext"
    and B: "\<forall>i<length orders. orders ! i \<in> set ?starts \<longrightarrow> parents ! i \<noteq> - 1 \<longrightarrow>
            (\<exists>s\<in>set segs. \<exists>ext. s = orders ! i # parents ! i # ext)"
    by blast
  have g: "get_all_segments orders parents = Some (Inr segs)"
    using many total c by (simp add: get_all_segments_def Let_def)
  have seg: "\<forall>s\<in>set segs. branch_segment orders parents s"
  proof
    fix s assume "s \<in> set segs"
    with A obtain i ext where i: "i < length orders" "orders ! i \<in> set ?starts" "parents ! i \<noteq> - 1"
      "s = orders ! i # parents ! i # ext" "walk_ok orders parents ?ends (parents ! i) ext"
      by blast
    have e: "parent_edge orders parents (orders ! i) (parents ! i)"
      using i(1,3) by (auto simp: parent_edge_def)
    from i(2) starts have st: "is_leaf orders parents (orders ! i) \<or> is_bifurcation parents (orders ! i)"
      by blast
    show "branch_segment orders parents s"
      unfolding i(4) by (rule segment_shape[OF ends st e i(5)])
  qed
  have cover: "\<exists>s\<in>set segs. \<exists>k. Suc k < length s \<and> s ! k = orders ! i \<and> s ! Suc k = parents ! i"
    if "i < length orders" "parents ! i \<noteq> - 1" for i
    using that
  proof (induction "length orders - i" arbitrary: i rule: less_induct)
    case less
    show ?case
    proof (cases "orders ! i \<in> set ?starts")
      case True
      with B less.prems obtain s ext where "s \<in> set segs" "s = orders ! i # parents ! i # ext"
        by blast
      then show ?thesis by (intro bexI[of _ s] exI[of _ 0]) auto
    next
      case False
      with starts have nl: "\<not> is_leaf orders parents (orders ! i)"
        and nb: "\<not> is_bifurcation parents (orders ! i)" by blast+
      from nl less.prems(1) have "orders ! i \<in> set parents" by (auto simp: is_leaf_def)
      then obtain j where j: "j < length parents" "parents ! j = orders ! i"
        by (auto simp: in_set_conv_nth)
      then have jl: "j < length orders" using tree by (simp add: tree_order_def)
      have "orders ! i \<in> set orders" using less.prems(1) by simp
      then have "orders ! i \<noteq> - 1" using tree by (auto simp: tree_order_def)
      then have ne: "parents ! j \<noteq> - 1" using j(2) by simp
      from tree_order_parent[OF tree jl ne] obtain i' where i': "i' < j" "orders ! i' = parents ! j"
        by blast
      then have "i' = i" using d j(2) jl less.prems(1) by (auto simp: nth_eq_iff_index_eq)
      with i' have "i < j" by simp
      then have "length orders - j < length orders - i" using jl by simp
      from less.hyps[OF this jl ne] obtain s k where
        s: "s \<in> set segs" "Suc k < length s" "s ! k = orders ! j" "s ! Suc k = parents ! j"
        by blast
      from seg s(1) have bs: "branch_segment orders parents s" by blast
      have nr: "\<not> is_root orders parents (orders ! i)"
        using less.prems d by (auto simp: is_root_def nth_eq_iff_index_eq)
      have "last s = s ! (length s - 1)" using s(2) by (intro last_conv_nth) auto
      moreover have "is_bifurcation parents (last s) \<or> is_root orders parents (last s)"
        using bs by (simp add: branch_segment_def)
      ultimately have "Suc k \<noteq> length s - 1" using nb nr s(4) j(2) by auto
      then have k2: "Suc (Suc k) < length s" using s(2) by simp
      then have "parent_edge orders parents (s ! Suc k) (s ! Suc (Suc k))"
        using bs by (simp add: branch_segment_def)
      then have "s ! Suc (Suc k) = parents ! i"
        using parent_edge_unique[OF tree less.prems(1)] s(4) j(2) by simp
      with s(1) k2 s(4) j(2) show ?thesis by (intro bexI[of _ s] exI[of _ "Suc k"]) auto
    qed
  qed
  from g seg cover show ?thesis by blast
qed


lemma first_is_root:
  assumes tree: "tree_order orders parents" and "0 < length orders"
  shows "parents ! 0 = - 1"
  using assms by (auto simp: tree_order_def list_all_iff)

lemma one_leaf_chain:
  assumes tree: "tree_order orders parents"
    and one: "length (leaf_nodes_of orders parents) = 1"
  shows "1 \<le> i \<Longrightarrow> i < length orders \<Longrightarrow> parents ! i = orders ! (i - 1)"
proof -
  let ?n = "length orders"
  let ?A = "{1..<?n}"
  let ?f = "\<lambda>i. parents ! i"
  have d: "distinct orders" and len: "length parents = ?n" and m: "- 1 \<notin> set orders"
    using tree by (simp_all add: tree_order_def)
  have "distinct (leaf_nodes_of orders parents)" using d by (simp add: leaf_nodes_of_def)
  then have "card (set (leaf_nodes_of orders parents)) = 1" using one by (simp add: distinct_card)
  moreover have "set (leaf_nodes_of orders parents) = set orders - set parents"
    by (auto simp: leaf_nodes_of_def)
  ultimately have c1: "card (set orders - set parents) = 1" by simp
  have "card (set orders) = ?n" using d by (simp add: distinct_card)
  moreover have "card (set orders - set parents) = card (set orders) - card (set orders \<inter> set parents)"
    by (simp add: card_Diff_subset_Int)
  moreover have "card (set orders \<inter> set parents) \<le> card (set orders)"
    by (intro card_mono) auto
  ultimately have c2: "card (set orders \<inter> set parents) = ?n - 1" using c1 by simp
  have sub: "set orders \<inter> set parents \<subseteq> ?f ` ?A"
  proof
    fix v assume v: "v \<in> set orders \<inter> set parents"
    then obtain j where j: "j < ?n" "parents ! j = v" using len by (auto simp: in_set_conv_nth)
    have "v \<noteq> - 1" using v m by auto
    have "j \<noteq> 0"
    proof
      assume "j = 0"
      with first_is_root[OF tree] j \<open>v \<noteq> - 1\<close> show False by simp
    qed
    with j show "v \<in> ?f ` ?A" by auto
  qed
  have "card (?f ` ?A) \<le> card ?A" by (intro card_image_le) simp
  moreover have "card (set orders \<inter> set parents) \<le> card (?f ` ?A)"
    by (intro card_mono sub) simp
  ultimately have ceq: "card (?f ` ?A) = card ?A" using c2 by simp
  then have inj: "inj_on ?f ?A" by (intro eq_card_imp_inj_on) simp_all
  have ceq': "card (set orders \<inter> set parents) = card (?f ` ?A)" using c2 ceq by simp
  have "finite (?f ` ?A)" by simp
  from card_subset_eq[OF this sub ceq'] have "set orders \<inter> set parents = ?f ` ?A" .
  then have inord: "\<And>i. i \<in> ?A \<Longrightarrow> parents ! i \<in> set orders" by blast
  show "1 \<le> i \<Longrightarrow> i < ?n \<Longrightarrow> parents ! i = orders ! (i - 1)"
  proof (induction i rule: less_induct)
    case (less i)
    have "parents ! i \<in> set orders" using inord less.prems by simp
    then have "parents ! i \<noteq> - 1" using m by auto
    from tree_order_parent[OF tree less.prems(2) this] obtain j where
      j: "j < i" "orders ! j = parents ! i" by blast
    have "j = i - 1"
    proof (rule ccontr)
      assume "j \<noteq> i - 1"
      with j(1) have s: "Suc j < i" by simp
      then have "parents ! Suc j = orders ! (Suc j - 1)"
        using less.IH[of "Suc j"] less.prems by simp
      then have "parents ! Suc j = parents ! i" using j(2) by simp
      moreover have "Suc j \<in> ?A" "i \<in> ?A" using s less.prems by simp_all
      ultimately have "Suc j = i" using inj by (auto dest: inj_onD)
      with s show False by simp
    qed
    with j(2) show ?case by simp
  qed
qed

lemma segments_one_leaf:
  assumes tree: "tree_order orders parents"
    and one: "length (leaf_nodes_of orders parents) = 1"
  shows "get_all_segments orders parents = Some (Inr [orders]) \<and>
         (\<forall>c p. parent_edge orders parents c p \<longrightarrow> (p, c) \<in> set (get_edges orders None))"
proof -
  have "(p, c) \<in> set (get_edges orders None)" if "parent_edge orders parents c p" for c p
  proof -
    from that obtain i where i: "i < length orders" "orders ! i = c" "parents ! i = p" "p \<noteq> - 1"
      by (auto simp: parent_edge_def)
    have "i \<noteq> 0"
    proof
      assume "i = 0"
      with first_is_root[OF tree] i show False by simp
    qed
    then have i1: "1 \<le> i" by simp
    from one_leaf_chain[OF tree one i1 i(1)] i have "(p, c) = (orders ! (i - 1), orders ! i)" by simp
    moreover have "i \<in> set [1..<length orders]" using i1 i(1) by simp
    ultimately show ?thesis unfolding get_edges_def by (auto simp del: upt_Suc)
  qed
  then show ?thesis using one by (simp add: get_all_segments_def)
qed

text \<open>
  Claim C3. On a tree given by its traversal order and parent array \<^verbatim>\<open>_get_all_segments\<close>
  returns. When the tree has exactly one leaf the result is the whole order as the only
  segment. Otherwise every returned segment is a path that starts at a leaf or a
  bifurcation node, follows the parent relation and stops at the first bifurcation node
  or root it meets. In both cases the edges of the segments cover every parent-child
  edge of the tree.
\<close>

theorem segments_decompose_tree:
  assumes "tree_order orders parents"
  shows "\<exists>segments. get_all_segments orders parents = Some (Inr segments) \<and>
           (length (leaf_nodes_of orders parents) = 1 \<longrightarrow> segments = [orders]) \<and>
           (length (leaf_nodes_of orders parents) \<noteq> 1 \<longrightarrow>
              (\<forall>s\<in>set segments. branch_segment orders parents s)) \<and>
           covers_tree orders parents segments"
proof (cases "length (leaf_nodes_of orders parents) = 1")
  case True
  from segments_one_leaf[OF assms True] show ?thesis
    using True by (auto simp: covers_tree_def)
next
  case False
  from segments_many_leaves[OF assms False] obtain segs where
    g: "get_all_segments orders parents = Some (Inr segs)"
    and b: "\<forall>s\<in>set segs. branch_segment orders parents s"
    and c: "\<forall>i<length orders. parents ! i \<noteq> - 1 \<longrightarrow>
              (\<exists>s\<in>set segs. \<exists>k. Suc k < length s \<and> s ! k = orders ! i \<and> s ! Suc k = parents ! i)"
    by blast
  have "covers_tree orders parents segs"
    unfolding covers_tree_def
  proof (intro allI impI)
    fix c' p assume "parent_edge orders parents c' p"
    then obtain i where i: "i < length orders" "orders ! i = c'" "parents ! i = p" "p \<noteq> - 1"
      by (auto simp: parent_edge_def)
    with c obtain s k where s: "s \<in> set segs" "Suc k < length s" "s ! k = c'" "s ! Suc k = p"
      by blast
    have "Suc k \<in> set [1..<length s]" using s(2) by simp
    then have "(s ! (Suc k - 1), s ! Suc k) \<in> (\<lambda>i. (s ! (i - 1), s ! i)) ` set [1..<length s]"
      by (rule imageI)
    then have "(s ! k, s ! Suc k) \<in> set (get_edges s None)"
      unfolding get_edges_def by simp
    with s show "\<exists>s\<in>set segs. (c', p) \<in> set (get_edges s None) \<or> (p, c') \<in> set (get_edges s None)"
      by auto
  qed
  with g b False show ?thesis by blast
qed


lemma fork_tree: "tree_order [0, 1, 2, 3] [- 1, 0, 1, 1]"
  by (simp add: tree_order_def)

lemma fork_segments:
  "get_all_segments [0, 1, 2, 3] [- 1, 0, 1, 1] = Some (Inr [[2, 1], [3, 1], [1, 0]])"
  by (simp add: get_all_segments_def leaf_nodes_of_def make_parents_dict_def bifurcation_nodes_of_def
     counter_keys_def add_roots_def get_path_def follow_parents.simps Let_def)

theorem segments_decompose_tree_witness:
  "tree_order [0, 1, 2, 3] [- 1, 0, 1, 1] \<and>
   get_all_segments [0, 1, 2, 3] [- 1, 0, 1, 1] = Some (Inr [[2, 1], [3, 1], [1, 0]]) \<and>
   length (leaf_nodes_of [0, 1, 2, 3] [- 1, 0, 1, 1]) = 2 \<and>
   branch_segment [0, 1, 2, 3] [- 1, 0, 1, 1] [2, 1] \<and>
   branch_segment [0, 1, 2, 3] [- 1, 0, 1, 1] [3, 1] \<and>
   branch_segment [0, 1, 2, 3] [- 1, 0, 1, 1] [1, 0] \<and>
   covers_tree [0, 1, 2, 3] [- 1, 0, 1, 1] [[2, 1], [3, 1], [1, 0]]"
proof -
  have l: "length (leaf_nodes_of [0, 1, 2, 3] [- 1, 0, 1, 1]) = 2"
    by (simp add: leaf_nodes_of_def)
  from segments_decompose_tree[OF fork_tree] fork_segments l
  have "(\<forall>s\<in>set [[2, 1], [3, 1], [1, 0]]. branch_segment [0, 1, 2, 3] [- 1, 0, 1, 1] s) \<and>
        covers_tree [0, 1, 2, 3] [- 1, 0, 1, 1] [[2, 1], [3, 1], [1, 0]]"
    by auto
  with fork_tree fork_segments l show ?thesis by simp
qed

section \<open>What the call leaves unchanged\<close>

lemma write_at_frame: "write_at h a r c x = Inr h' \<Longrightarrow> b \<noteq> a \<Longrightarrow> h' b = h b"
  by (auto simp: write_at_def split: sum.splits)

lemma store_max_frame: "store_max dst src rc rc1 rc2 h = (res, h') \<Longrightarrow> b \<noteq> dst \<Longrightarrow> h' b = h b"
  by (auto simp: store_max_def split: sum.splits dest: write_at_frame)

lemma store_copy_frame: "store_copy dst src rc h = (res, h') \<Longrightarrow> b \<noteq> dst \<Longrightarrow> h' b = h b"
  by (auto simp: store_copy_def split: sum.splits dest: write_at_frame)

lemma store_zero_frame: "store_zero dst rc h = (res, h') \<Longrightarrow> b \<noteq> dst \<Longrightarrow> h' b = h b"
  by (auto simp: store_zero_def split: sum.splits dest: write_at_frame)

lemma and_then_frame:
  assumes "\<And>h res h'. first h = (res, h') \<Longrightarrow> h' b = h b"
    and "\<And>h res h'. second h = (res, h') \<Longrightarrow> h' b = h b"
    and "and_then first second h = (res, h')"
  shows "h' b = h b"
proof (cases "first h")
  case (Pair r1 h1)
  show ?thesis
  proof (cases r1)
    case None
    with Pair assms(3) have "second h1 = (res, h')" by (simp add: and_then_def)
    with assms(1)[OF Pair] assms(2) show ?thesis by metis
  next
    case (Some e)
    with Pair assms(3) have "h' = h1" by (simp add: and_then_def)
    with assms(1)[OF Pair] show ?thesis by simp
  qed
qed

lemma orient_edge_frame:
  assumes "orient_edge dir vt dvt rc h = (res, h')" "b \<noteq> dvt"
  shows "h' b = h b"
proof -
  obtain r c where rc: "rc = (r, c)" by (cases rc)
  show ?thesis
  proof (cases dir)
    case Forward
    with assms rc show ?thesis
      by (auto intro: and_then_frame[where first = "store_max dvt vt (r, c) (r, c) (c, r)"
            and second = "store_zero dvt (c, r)"] dest: store_max_frame store_zero_frame)
  next
    case Reversed
    with assms rc show ?thesis
      by (auto intro: and_then_frame[where first = "store_max dvt vt (c, r) (r, c) (c, r)"
            and second = "store_zero dvt (r, c)"] dest: store_max_frame store_zero_frame)
  next
    case Undecided
    with assms rc show ?thesis
      by (auto intro: and_then_frame[where first = "store_copy dvt vt (c, r)"
            and second = "store_copy dvt vt (r, c)"] dest: store_copy_frame)
  qed
qed

lemma orient_edges_frame:
  "orient_edges dir vt dvt edge_pairs h = (res, h') \<Longrightarrow> b \<noteq> dvt \<Longrightarrow> h' b = h b"
proof (induction edge_pairs arbitrary: h res h')
  case Nil
  then show ?case by simp
next
  case (Cons rc edge_pairs)
  from Cons.prems(1) have "and_then (orient_edge dir vt dvt rc) (orient_edges dir vt dvt edge_pairs) h = (res, h')"
    by simp
  then show ?case
    by (rule and_then_frame[rotated 2]) (use Cons.prems(2) Cons.IH orient_edge_frame in blast)+
qed

lemma orient_segments_frame:
  "orient_segments ctm vt dvt segments h = (res, h') \<Longrightarrow> b \<noteq> dvt \<Longrightarrow> h' b = h b"
proof (induction segments arbitrary: h res h')
  case Nil
  then show ?case by simp
next
  case (Cons segment segments)
  show ?case
  proof (cases "segment_direction ctm segment")
    case (Inl e)
    with Cons.prems show ?thesis by simp
  next
    case (Inr dir)
    with Cons.prems(1) have "and_then (orient_edges dir vt dvt (get_edges segment None))
            (orient_segments ctm vt dvt segments) h = (res, h')" by simp
    then show ?thesis
      by (rule and_then_frame[rotated 2]) (use Cons.prems(2) Cons.IH orient_edges_frame in blast)+
  qed
qed


lemma orient_segments_below:
  "orient_segments ctm vt dvt segments (h(dvt := m)) = (res, h') \<Longrightarrow> b < dvt \<Longrightarrow> h' b = h b"
  using orient_segments_frame[of ctm vt dvt segments "h(dvt := m)" res h' b] by simp

lemma construct_velocity_tree_error:
  assumes "construct_velocity_tree adata key = Some (Inl e, adata')"
  shows "obsp adata' = obsp adata \<and> uns adata' = uns adata \<and>
         (\<forall>a<next_free adata. heap adata' a = heap adata a)"
  using assms
  unfolding construct_velocity_tree_def Let_def
  by (auto split: option.splits sum.splits prod.splits
           simp: copy_array_def intro: orient_segments_below)

lemma construct_velocity_tree_success:
  assumes "construct_velocity_tree adata key = Some (Inr d, adata')"
  shows "\<exists>tm R orders parents vt segments ctm h.
           read_inputs adata key = Inr (tm, R, orders, parents, vt) \<and>
           get_all_segments orders parents = Some (Inr segments) \<and>
           compute_center_transition_matrix
             (fetch_transition (snd (copy_array vt adata)) tm) (heap (snd (copy_array vt adata)) R)
             = Inr ctm \<and>
           orient_segments ctm vt d segments (heap (snd (copy_array vt adata))) = (None, h) \<and>
           d = next_free adata \<and>
           adata' = (snd (copy_array vt adata))
                      \<lparr>heap := h, uns := (uns adata)(''directed_velocity_tree'' \<mapsto> ArrayRef d)\<rparr>"
proof -
  from assms obtain tm R orders parents vt where
    ri: "read_inputs adata key = Inr (tm, R, orders, parents, vt)"
    by (auto simp: construct_velocity_tree_def split: sum.splits)
  define adata1 where "adata1 = snd (copy_array vt adata)"
  have c: "copy_array vt adata = (next_free adata, adata1)"
    by (simp add: adata1_def copy_array_def)
  have u: "uns adata1 = uns adata" by (simp add: adata1_def copy_array_def)
  from assms have "\<exists>segments ctm h.
           get_all_segments orders parents = Some (Inr segments) \<and>
           compute_center_transition_matrix (fetch_transition adata1 tm) (heap adata1 R) = Inr ctm \<and>
           orient_segments ctm vt d segments (heap adata1) = (None, h) \<and>
           d = next_free adata \<and>
           adata' = adata1\<lparr>heap := h, uns := (uns adata)(''directed_velocity_tree'' \<mapsto> ArrayRef d)\<rparr>"
    unfolding construct_velocity_tree_def ri
    by (auto simp: c u split: option.splits sum.splits prod.splits)
  with ri show ?thesis unfolding adata1_def by blast
qed

lemma one_way2_value:
  "compute_center_transition_matrix (DenseT one_way2) identity2 =
     Inr [[Fin 0, Fin 1], [Fin 0, Fin 0]]"
  by (simp add: center_eval one_way2_def)

lemma tiny_order: "argsort [0, 1] = [0, 1]"
  by (simp add: argsort_def upt2)

lemma tiny_parents: "sequence (map (index1 [- 1, 0]) [0, 1]) = Inr [- 1, 0]"
  by (simp add: index1_def np_index_def)

lemma tiny_segments: "get_all_segments [0, 1] [- 1, 0] = Some (Inr [[0, 1]])"
  by (simp add: get_all_segments_def leaf_nodes_of_def)

lemma tiny_edges: "get_edges [0, 1] None = [(0, 1)]" "get_edges [1, 0] None = [(1, 0)]"
  by (simp_all add: get_edges_def upt2)

lemma one_way2_direction:
  "segment_direction [[Fin 0, Fin 1], [Fin 0, Fin 0]] [0, 1] = Inr Forward"
  by (simp add: segment_direction_def tiny_edges calculate_segment_probability_def
      log_transition_def lookup2_def np_index_def zero_inf_def cumsum_def last_score_def Let_def)

lemma one_way2_loop:
  assumes "h 2 = tree2"
  shows "orient_segments [[Fin 0, Fin 1], [Fin 0, Fin 0]] 2 3 [[0, 1]] (h(3 := tree2))
         = (None, h(3 := \<lparr>ncols = 2, rows = [[0, 3], [0, 0]]\<rparr>))"
  using assms
  by (simp add: one_way2_direction tiny_edges and_then_def store_max_def store_zero_def
      read_at_def write_at_def np_index_def nrows_def entry_def set_entry_def tree2_def)

lemma one_way2_run:
  "construct_velocity_tree (tiny_adata one_way2 tiny_cell_order) ''pearson'' =
     Some (Inr 3, tiny_result one_way2 \<lparr>ncols = 2, rows = [[0, 3], [0, 0]]\<rparr>)"
  by (simp add: construct_velocity_tree_def read_inputs_def tiny_adata_def tiny_cell_order_def
      tiny_result_def tiny_order index1_def np_index_def tiny_segments copy_array_def
      fetch_transition_def one_way2_value one_way2_loop Let_def del: orient_segments.simps)


text \<open>
  Claim C5. A call that succeeds leaves \<^verbatim>\<open>adata.obsp\<close> and every array allocated before
  the call as they were (the minimum spanning tree, \<open>R\<close> and the transition matrix among
  them); \<^verbatim>\<open>adata.uns\<close> changes at the key \<^verbatim>\<open>directed_velocity_tree\<close> only, so the cell
  order entry with its order and parent arrays is kept; the key holds the returned
  array, which is a new one.
\<close>

theorem construct_velocity_tree_adds_one_key:
  assumes "construct_velocity_tree adata key = Some (Inr d, adata')"
  shows "obsp adata' = obsp adata \<and>
         uns adata' = (uns adata)(''directed_velocity_tree'' \<mapsto> ArrayRef d) \<and>
         uns adata' ''cell_order'' = uns adata ''cell_order'' \<and>
         d = next_free adata \<and>
         (\<forall>a<next_free adata. heap adata' a = heap adata a)"
proof -
  from construct_velocity_tree_success[OF assms] obtain vt segments ctm h where
    loop: "orient_segments ctm vt d segments (heap (snd (copy_array vt adata))) = (None, h)"
    and d: "d = next_free adata"
    and a': "adata' = (snd (copy_array vt adata))
                      \<lparr>heap := h, uns := (uns adata)(''directed_velocity_tree'' \<mapsto> ArrayRef d)\<rparr>"
    by blast
  from loop d have "orient_segments ctm vt d segments ((heap adata)(d := heap adata vt)) = (None, h)"
    by (simp add: copy_array_def)
  then have "\<forall>a<d. h a = heap adata a" by (blast intro: orient_segments_below)
  with d a' show ?thesis by (simp add: copy_array_def)
qed

theorem construct_velocity_tree_adds_one_key_witness:
  "construct_velocity_tree (tiny_adata one_way2 tiny_cell_order) ''pearson'' =
     Some (Inr 3, tiny_result one_way2 \<lparr>ncols = 2, rows = [[0, 3], [0, 0]]\<rparr>) \<and>
   obsp (tiny_result one_way2 \<lparr>ncols = 2, rows = [[0, 3], [0, 0]]\<rparr>) =
     obsp (tiny_adata one_way2 tiny_cell_order) \<and>
   uns (tiny_result one_way2 \<lparr>ncols = 2, rows = [[0, 3], [0, 0]]\<rparr>) ''cell_order'' =
     Some (CellOrder tiny_cell_order) \<and>
   heap (tiny_result one_way2 \<lparr>ncols = 2, rows = [[0, 3], [0, 0]]\<rparr>) 2 = tree2 \<and>
   heap (tiny_result one_way2 \<lparr>ncols = 2, rows = [[0, 3], [0, 0]]\<rparr>) 3 =
     \<lparr>ncols = 2, rows = [[0, 3], [0, 0]]\<rparr>"
  using construct_velocity_tree_adds_one_key[OF one_way2_run] one_way2_run
  by (simp add: tiny_adata_def tiny_result_def)

text \<open>
  Claim C8, amended. When the key of the transition matrix is absent from \<^verbatim>\<open>adata.obsp\<close>
  or \<^verbatim>\<open>cell_order\<close> is absent from \<^verbatim>\<open>adata.uns\<close>, the call raises KeyError and leaves
  everything as it was, without allocating an array. Whatever error a call raises,
  \<^verbatim>\<open>adata.obsp\<close>, \<^verbatim>\<open>adata.uns\<close> and every array allocated before the call are unchanged.
\<close>

theorem construct_velocity_tree_raises:
  "(key @ ''_transition_matrix'' \<notin> dom (obsp adata) \<or> ''cell_order'' \<notin> dom (uns adata) \<longrightarrow>
      construct_velocity_tree adata key = Some (Inl KeyError, adata)) \<and>
   (construct_velocity_tree adata key = Some (Inl e, adata') \<longrightarrow>
      obsp adata' = obsp adata \<and> uns adata' = uns adata \<and>
      (\<forall>a<next_free adata. heap adata' a = heap adata a))"
proof (intro conjI impI)
  assume "key @ ''_transition_matrix'' \<notin> dom (obsp adata) \<or> ''cell_order'' \<notin> dom (uns adata)"
  then show "construct_velocity_tree adata key = Some (Inl KeyError, adata)"
    by (auto simp: construct_velocity_tree_def read_inputs_def)
next
  assume "construct_velocity_tree adata key = Some (Inl e, adata')"
  from construct_velocity_tree_error[OF this]
  show "obsp adata' = obsp adata" "uns adata' = uns adata"
    "\<forall>a<next_free adata. heap adata' a = heap adata a" by simp_all
qed

text \<open>
  Claim C8 as stated fails in the direction "only if": with both keys present and no
  entry \<open>R\<close> in the cell order, \<^verbatim>\<open>adata.uns["cell_order"]["R"]\<close> raises KeyError.
\<close>

theorem key_error_with_both_keys:
  "construct_velocity_tree (tiny_adata one_way2 (tiny_cell_order\<lparr>co_R := None\<rparr>)) ''pearson'' =
     Some (Inl KeyError, tiny_adata one_way2 (tiny_cell_order\<lparr>co_R := None\<rparr>)) \<and>
   ''pearson'' @ ''_transition_matrix'' \<in> dom (obsp (tiny_adata one_way2 (tiny_cell_order\<lparr>co_R := None\<rparr>))) \<and>
   ''cell_order'' \<in> dom (uns (tiny_adata one_way2 (tiny_cell_order\<lparr>co_R := None\<rparr>)))"
  by (simp add: construct_velocity_tree_def read_inputs_def tiny_adata_def tiny_cell_order_def)

theorem construct_velocity_tree_raises_witness:
  "''cell_order'' \<notin> dom (uns ((tiny_adata one_way2 tiny_cell_order)\<lparr>uns := Map.empty\<rparr>)) \<and>
   construct_velocity_tree ((tiny_adata one_way2 tiny_cell_order)\<lparr>uns := Map.empty\<rparr>) ''pearson'' =
     Some (Inl KeyError, (tiny_adata one_way2 tiny_cell_order)\<lparr>uns := Map.empty\<rparr>)"
proof -
  let ?a = "(tiny_adata one_way2 tiny_cell_order)\<lparr>uns := Map.empty\<rparr>"
  have h: "''cell_order'' \<notin> dom (uns ?a)" by simp
  from construct_velocity_tree_raises[of "''pearson''" ?a KeyError ?a] h
  have r: "construct_velocity_tree ?a ''pearson'' = Some (Inl KeyError, ?a)" by blast
  with h show ?thesis by simp
qed

section \<open>The effect of the loop on the directed array\<close>

lemma np_index_nonneg:
  "0 \<le> r \<Longrightarrow> np_index n r = Inr i \<longleftrightarrow> (nat r < n \<and> i = nat r)"
  by (auto simp: np_index_def)

lemma read_at_nonneg:
  assumes "read_at h a r c = Inr x" "0 \<le> r" "0 \<le> c"
  shows "nat r < nrows (h a) \<and> nat c < ncols (h a) \<and> x = entry (h a) (nat r) (nat c)"
  using assms by (auto simp: read_at_def np_index_nonneg split: sum.splits)

lemma write_at_nonneg:
  assumes "write_at h a r c x = Inr h'" "0 \<le> r" "0 \<le> c"
  shows "nat r < nrows (h a) \<and> nat c < ncols (h a) \<and>
         h' = h(a := set_entry (h a) (nat r) (nat c) x)"
  using assms by (auto simp: write_at_def np_index_nonneg split: sum.splits)

lemma wf_set_entry:
  assumes "wf_mat M"
  shows "wf_mat (set_entry M i j x)"
proof (cases "i < length (rows M)")
  case True
  then have "length (rows M ! i) = ncols M" using assms by (simp add: wf_mat_def list_all_iff)
  then show ?thesis
    using assms by (auto simp: wf_mat_def set_entry_def list_all_iff dest!: set_update_subset_insert[THEN subsetD])
next
  case False
  then have "(rows M)[i := (rows M ! i)[j := x]] = rows M" by (intro list_update_beyond) simp
  then show ?thesis using assms by (simp add: wf_mat_def set_entry_def)
qed

lemma shape_set_entry: "nrows (set_entry M i j x) = nrows M" "ncols (set_entry M i j x) = ncols M"
  by (simp_all add: set_entry_def nrows_def)

lemma entry_set_entry_other:
  "(i', j') \<noteq> (i, j) \<Longrightarrow> entry (set_entry M i j x) i' j' = entry M i' j'"
proof (cases "i < length (rows M)")
  case True
  assume "(i', j') \<noteq> (i, j)"
  with True show ?thesis by (auto simp: entry_def set_entry_def nth_list_update)
next
  case False
  then have "(rows M)[i := (rows M ! i)[j := x]] = rows M" by (intro list_update_beyond) simp
  then show ?thesis by (simp add: entry_def set_entry_def)
qed

lemma entry_set_entry_same:
  assumes "wf_mat M" "i < nrows M" "j < ncols M"
  shows "entry (set_entry M i j x) i j = x"
proof -
  have "rows M ! i \<in> set (rows M)" using assms(2) by (simp add: nrows_def)
  then have "length (rows M ! i) = ncols M" using assms(1) by (simp add: wf_mat_def list_all_iff)
  then show ?thesis using assms by (simp add: entry_def set_entry_def nrows_def)
qed


lemma store_max_done:
  assumes "store_max dst src (r, c) (r1, c1) (r2, c2) h = (None, h')"
    and "0 \<le> r" "0 \<le> c" "0 \<le> r1" "0 \<le> c1" "0 \<le> r2" "0 \<le> c2"
  shows "nat r < nrows (h dst) \<and> nat c < ncols (h dst) \<and>
         h' = h(dst := set_entry (h dst) (nat r) (nat c)
                  (max (entry (h src) (nat r1) (nat c1)) (entry (h src) (nat r2) (nat c2))))"
proof -
  from assms(1) obtain x y where
    x: "read_at h src r1 c1 = Inr x" and y: "read_at h src r2 c2 = Inr y"
    and w: "write_at h dst r c (max x y) = Inr h'"
    by (auto simp: store_max_def split: sum.splits)
  from read_at_nonneg[OF x] read_at_nonneg[OF y] write_at_nonneg[OF w] assms(2-)
  show ?thesis by simp
qed

lemma store_copy_done:
  assumes "store_copy dst src (r, c) h = (None, h')" and "0 \<le> r" "0 \<le> c"
  shows "nat r < nrows (h dst) \<and> nat c < ncols (h dst) \<and>
         h' = h(dst := set_entry (h dst) (nat r) (nat c) (entry (h src) (nat r) (nat c)))"
proof -
  from assms(1) obtain x where
    x: "read_at h src r c = Inr x" and w: "write_at h dst r c x = Inr h'"
    by (auto simp: store_copy_def split: sum.splits)
  from read_at_nonneg[OF x] write_at_nonneg[OF w] assms(2-)
  show ?thesis by simp
qed

lemma store_zero_done:
  assumes "store_zero dst (r, c) h = (None, h')" and "0 \<le> r" "0 \<le> c"
  shows "nat r < nrows (h dst) \<and> nat c < ncols (h dst) \<and>
         h' = h(dst := set_entry (h dst) (nat r) (nat c) 0)"
proof -
  from assms(1) have w: "write_at h dst r c 0 = Inr h'"
    by (auto simp: store_zero_def split: sum.splits)
  from write_at_nonneg[OF w] assms(2-) show ?thesis by simp
qed

lemma and_then_done:
  assumes "and_then first second h = (None, h')"
  obtains h1 where "first h = (None, h1)" "second h1 = (None, h')"
  using assms by (auto simp: and_then_def split: prod.splits option.splits)

lemma nat_neq: "0 \<le> r \<Longrightarrow> 0 \<le> c \<Longrightarrow> r \<noteq> c \<Longrightarrow> nat r \<noteq> nat c"
  by simp

lemma orient_edge_step:
  assumes run: "orient_edge dir v d (r, c) h = (None, h')"
    and vd: "v \<noteq> d" and wf: "wf_mat (h d)" and nn: "0 \<le> r" "0 \<le> c" and ne: "r \<noteq> c"
  shows "h' v = h v \<and> wf_mat (h' d) \<and> oriented dir (h v) (h' d) r c \<and>
         (\<forall>i j. (i, j) \<notin> touched (r, c) \<longrightarrow> entry (h' d) i j = entry (h d) i j)"
proof -
  have n: "nat r \<noteq> nat c" using nn ne by simp
  show ?thesis
  proof (cases dir)
    case Forward
    with run obtain h1 where
      1: "store_max d v (r, c) (r, c) (c, r) h = (None, h1)" and 2: "store_zero d (c, r) h1 = (None, h')"
      by (auto elim: and_then_done)
    let ?x = "max (entry (h v) (nat r) (nat c)) (entry (h v) (nat c) (nat r))"
    let ?M1 = "set_entry (h d) (nat r) (nat c) ?x"
    from store_max_done[OF 1] nn have
      r1: "nat r < nrows (h d)" "nat c < ncols (h d)" and h1: "h1 = h(d := ?M1)" by simp_all
    from store_zero_done[OF 2] nn have
      r2: "nat c < nrows (h1 d)" "nat r < ncols (h1 d)"
      and h': "h' = h1(d := set_entry (h1 d) (nat c) (nat r) 0)" by simp_all
    have d': "h' d = set_entry ?M1 (nat c) (nat r) 0" using h1 h' by simp
    have w1: "wf_mat ?M1" by (rule wf_set_entry[OF wf])
    have "entry (h' d) (nat c) (nat r) = 0"
      unfolding d' using r2 h1 by (intro entry_set_entry_same[OF w1]) simp_all
    moreover have "entry (h' d) (nat r) (nat c) = ?x"
      unfolding d' using n r1 by (simp add: entry_set_entry_other entry_set_entry_same[OF wf])
    moreover have "entry (h' d) i j = entry (h d) i j" if "(i, j) \<notin> touched (r, c)" for i j
      unfolding d' using that by (simp add: touched_def entry_set_entry_other)
    moreover have "wf_mat (h' d)" unfolding d' by (rule wf_set_entry[OF w1])
    moreover have "h' v = h v" using h1 h' vd by simp
    ultimately show ?thesis using Forward by (simp add: oriented_def)
  next
    case Reversed
    with run obtain h1 where
      1: "store_max d v (c, r) (r, c) (c, r) h = (None, h1)" and 2: "store_zero d (r, c) h1 = (None, h')"
      by (auto elim: and_then_done)
    let ?x = "max (entry (h v) (nat r) (nat c)) (entry (h v) (nat c) (nat r))"
    let ?M1 = "set_entry (h d) (nat c) (nat r) ?x"
    from store_max_done[OF 1] nn have
      r1: "nat c < nrows (h d)" "nat r < ncols (h d)" and h1: "h1 = h(d := ?M1)" by simp_all
    from store_zero_done[OF 2] nn have
      r2: "nat r < nrows (h1 d)" "nat c < ncols (h1 d)"
      and h': "h' = h1(d := set_entry (h1 d) (nat r) (nat c) 0)" by simp_all
    have d': "h' d = set_entry ?M1 (nat r) (nat c) 0" using h1 h' by simp
    have w1: "wf_mat ?M1" by (rule wf_set_entry[OF wf])
    have "entry (h' d) (nat r) (nat c) = 0"
      unfolding d' using r2 h1 by (intro entry_set_entry_same[OF w1]) simp_all
    moreover have "entry (h' d) (nat c) (nat r) = ?x"
      unfolding d' using n r1 by (simp add: entry_set_entry_other entry_set_entry_same[OF wf])
    moreover have "entry (h' d) i j = entry (h d) i j" if "(i, j) \<notin> touched (r, c)" for i j
      unfolding d' using that by (simp add: touched_def entry_set_entry_other)
    moreover have "wf_mat (h' d)" unfolding d' by (rule wf_set_entry[OF w1])
    moreover have "h' v = h v" using h1 h' vd by simp
    ultimately show ?thesis using Reversed by (simp add: oriented_def)
  next
    case Undecided
    with run obtain h1 where
      1: "store_copy d v (c, r) h = (None, h1)" and 2: "store_copy d v (r, c) h1 = (None, h')"
      by (auto elim: and_then_done)
    let ?M1 = "set_entry (h d) (nat c) (nat r) (entry (h v) (nat c) (nat r))"
    from store_copy_done[OF 1] nn have
      r1: "nat c < nrows (h d)" "nat r < ncols (h d)" and h1: "h1 = h(d := ?M1)" by simp_all
    have v1: "h1 v = h v" using h1 vd by simp
    from store_copy_done[OF 2] nn have
      r2: "nat r < nrows (h1 d)" "nat c < ncols (h1 d)"
      and h': "h' = h1(d := set_entry (h1 d) (nat r) (nat c) (entry (h1 v) (nat r) (nat c)))"
      by simp_all
    have d': "h' d = set_entry ?M1 (nat r) (nat c) (entry (h v) (nat r) (nat c))"
      using h1 h' v1 by simp
    have w1: "wf_mat ?M1" by (rule wf_set_entry[OF wf])
    have "entry (h' d) (nat r) (nat c) = entry (h v) (nat r) (nat c)"
      unfolding d' using r2 h1 by (intro entry_set_entry_same[OF w1]) simp_all
    moreover have "entry (h' d) (nat c) (nat r) = entry (h v) (nat c) (nat r)"
      unfolding d' using n r1 by (simp add: entry_set_entry_other entry_set_entry_same[OF wf])
    moreover have "entry (h' d) i j = entry (h d) i j" if "(i, j) \<notin> touched (r, c)" for i j
      unfolding d' using that by (simp add: touched_def entry_set_entry_other)
    moreover have "wf_mat (h' d)" unfolding d' by (rule wf_set_entry[OF w1])
    moreover have "h' v = h v" using h1 h' vd by simp
    ultimately show ?thesis using Undecided by (simp add: oriented_def)
  qed
qed


lemma run_events_effect:
  assumes "run_events v d evs h = (None, h')" "v \<noteq> d" "wf_mat (h d)"
    and "\<forall>(dir, r, c)\<in>set evs. 0 \<le> r \<and> 0 \<le> c \<and> r \<noteq> c"
  shows "h' v = h v \<and> wf_mat (h' d) \<and>
         (\<forall>i j. (i, j) \<notin> \<Union>(touched ` snd ` set evs) \<longrightarrow> entry (h' d) i j = entry (h d) i j)"
  using assms
proof (induction evs arbitrary: h)
  case Nil
  then show ?case by simp
next
  case (Cons ev evs)
  obtain dir r c where ev: "ev = (dir, r, c)" by (cases ev) auto
  from Cons.prems(1) ev obtain h1 where
    1: "orient_edge dir v d (r, c) h = (None, h1)" and 2: "run_events v d evs h1 = (None, h')"
    by (auto elim: and_then_done)
  from Cons.prems(4) ev have nn: "0 \<le> r" "0 \<le> c" "r \<noteq> c"
    and rest: "\<forall>(dir, r, c)\<in>set evs. 0 \<le> r \<and> 0 \<le> c \<and> r \<noteq> c" by auto
  from orient_edge_step[OF 1 Cons.prems(2,3) nn] have
    s: "h1 v = h v" "wf_mat (h1 d)"
    "\<forall>i j. (i, j) \<notin> touched (r, c) \<longrightarrow> entry (h1 d) i j = entry (h d) i j" by auto
  from Cons.IH[OF 2 Cons.prems(2) s(2) rest] s ev show ?case by auto
qed

lemma touched_disjoint:
  assumes "0 \<le> r" "0 \<le> c" "0 \<le> r'" "0 \<le> c'" "(r', c') \<noteq> (r, c)" "(r', c') \<noteq> (c, r)"
  shows "touched (r, c) \<inter> touched (r', c') = {}"
  using assms by (auto simp: touched_def)

lemma oriented_cong:
  assumes "oriented dir V D r c" "V' = V"
    and "\<forall>i j. (i, j) \<in> touched (r, c) \<longrightarrow> entry D' i j = entry D i j"
  shows "oriented dir V' D' r c"
  using assms by (cases dir) (auto simp: oriented_def touched_def)

lemma run_events_oriented:
  assumes "run_events v d evs h = (None, h')" "v \<noteq> d" "wf_mat (h d)"
    and "\<forall>(dir, r, c)\<in>set evs. 0 \<le> r \<and> 0 \<le> c \<and> r \<noteq> c"
    and "distinct (map snd evs)" "\<forall>(r, c)\<in>snd ` set evs. (c, r) \<notin> snd ` set evs"
    and "(dir, r, c) \<in> set evs"
  shows "oriented dir (h v) (h' d) r c"
  using assms
proof (induction evs arbitrary: h)
  case Nil
  then show ?case by simp
next
  case (Cons ev evs)
  obtain dir0 r0 c0 where ev: "ev = (dir0, r0, c0)" by (cases ev) auto
  from Cons.prems(1) ev obtain h1 where
    1: "orient_edge dir0 v d (r0, c0) h = (None, h1)" and 2: "run_events v d evs h1 = (None, h')"
    by (auto elim: and_then_done)
  from Cons.prems(4) ev have nn: "0 \<le> r0" "0 \<le> c0" "r0 \<noteq> c0"
    and rest: "\<forall>(dir, r, c)\<in>set evs. 0 \<le> r \<and> 0 \<le> c \<and> r \<noteq> c" by auto
  from orient_edge_step[OF 1 Cons.prems(2,3) nn] have
    s: "h1 v = h v" "wf_mat (h1 d)" "oriented dir0 (h v) (h1 d) r0 c0" by auto
  from run_events_effect[OF 2 Cons.prems(2) s(2) rest] have
    t: "h' v = h1 v"
    "\<forall>i j. (i, j) \<notin> \<Union>(touched ` snd ` set evs) \<longrightarrow> entry (h' d) i j = entry (h1 d) i j"
    by auto
  show ?case
  proof (cases "(dir, r, c) = ev")
    case True
    have "touched (r0, c0) \<inter> touched e = {}" if "e \<in> snd ` set evs" for e
    proof -
      obtain r' c' where e: "e = (r', c')" by (cases e)
      from that e rest have nn': "0 \<le> r'" "0 \<le> c'" by force+
      have "(r', c') \<noteq> (r0, c0)" using Cons.prems(5) ev that e by auto
      moreover have "(r', c') \<noteq> (c0, r0)" using Cons.prems(6) ev that e by auto
      ultimately show ?thesis unfolding e by (intro touched_disjoint nn nn')
    qed
    then have "\<forall>i j. (i, j) \<in> touched (r0, c0) \<longrightarrow> (i, j) \<notin> \<Union>(touched ` snd ` set evs)"
      by blast
    with t(2) have "\<forall>i j. (i, j) \<in> touched (r0, c0) \<longrightarrow> entry (h' d) i j = entry (h1 d) i j"
      by blast
    from oriented_cong[OF s(3) refl this] True ev show ?thesis by simp
  next
    case False
    with Cons.prems(7) have in_rest: "(dir, r, c) \<in> set evs" by simp
    have d: "distinct (map snd evs)" using Cons.prems(5) by simp
    have nr: "\<forall>(r, c)\<in>snd ` set evs. (c, r) \<notin> snd ` set evs"
    proof -
      have False if a: "(r', c') \<in> snd ` set evs" and b: "(c', r') \<in> snd ` set evs" for r' c'
      proof -
        from a have "(r', c') \<in> snd ` set (ev # evs)" by auto
        with Cons.prems(6) have "(c', r') \<notin> snd ` set (ev # evs)" by blast
        with b show False by auto
      qed
      then show ?thesis by blast
    qed
    from Cons.IH[OF 2 Cons.prems(2) s(2) rest d nr in_rest] s(1) show ?thesis by simp
  qed
qed

lemma and_then_assoc: "and_then (and_then f g) k = and_then f (and_then g k)"
  by (rule ext) (auto simp: and_then_def split: prod.splits option.splits)

lemma and_then_skip: "and_then (\<lambda>h. (None, h)) g = g"
  by (rule ext) (simp add: and_then_def)

lemma run_events_Cons: "run_events v d ((dir, rc) # evs) = and_then (orient_edge dir v d rc) (run_events v d evs)"
  by (rule ext) simp

lemma run_events_Nil: "run_events v d [] = (\<lambda>h. (None, h))"
  by (rule ext) simp

lemma orient_edges_events: "orient_edges dir v d es = run_events v d (map (Pair dir) es)"
proof (induction es)
  case Nil
  show ?case by (rule ext) simp
next
  case (Cons e es)
  show ?case by (rule ext) (simp add: Cons)
qed

lemma run_events_append:
  "run_events v d (xs @ ys) = and_then (run_events v d xs) (run_events v d ys)"
proof (induction xs)
  case Nil
  show ?case by (simp add: run_events_Nil and_then_skip)
next
  case (Cons x xs)
  obtain dir rc where x: "x = (dir, rc)" by (cases x)
  show ?case
    by (simp add: x run_events_Cons Cons and_then_assoc del: run_events.simps)
qed

lemma orient_segments_events:
  "orient_segments ctm v d segs h = (None, h') \<Longrightarrow>
   (\<forall>s\<in>set segs. segment_direction ctm s = Inr (direction_of ctm s)) \<and>
   run_events v d (events_of ctm segs) h = (None, h')"
proof (induction segs arbitrary: h)
  case Nil
  then show ?case by (simp add: events_of_def)
next
  case (Cons s segs)
  from Cons.prems obtain dir where dir: "segment_direction ctm s = Inr dir"
    by (cases "segment_direction ctm s") auto
  then have do: "direction_of ctm s = dir" by (simp add: direction_of_def)
  from Cons.prems dir obtain h1 where
    1: "orient_edges dir v d (get_edges s None) h = (None, h1)"
    and 2: "orient_segments ctm v d segs h1 = (None, h')"
    by (auto elim: and_then_done)
  from Cons.IH[OF 2] have
    ih: "\<forall>s\<in>set segs. segment_direction ctm s = Inr (direction_of ctm s)"
      "run_events v d (events_of ctm segs) h1 = (None, h')" by auto
  have "events_of ctm (s # segs) = map (Pair dir) (get_edges s None) @ events_of ctm segs"
    by (simp add: events_of_def do)
  then have "run_events v d (events_of ctm (s # segs)) h = (None, h')"
    using 1 ih(2) by (simp add: run_events_append and_then_def orient_edges_events)
  with ih(1) dir do show ?case by simp
qed

section \<open>The edges of the segments of a tree\<close>

lemma parent_edge_earlier:
  assumes tree: "tree_order orders parents" and "parent_edge orders parents c p"
  shows "\<exists>i j. j < i \<and> i < length orders \<and> orders ! i = c \<and> orders ! j = p"
proof -
  from assms(2) obtain i where i: "i < length orders" "orders ! i = c" "parents ! i = p" "p \<noteq> - 1"
    by (auto simp: parent_edge_def)
  from tree_order_parent[OF tree i(1)] i(3,4) obtain j where "j < i" "orders ! j = p" by auto
  with i show ?thesis by blast
qed

lemma climb_earlier:
  assumes tree: "tree_order orders parents"
    and chain: "\<forall>k. Suc k < length s \<longrightarrow> parent_edge orders parents (s ! k) (s ! Suc k)"
  shows "k < k' \<Longrightarrow> k' < length s \<Longrightarrow>
         \<exists>i j. j < i \<and> i < length orders \<and> orders ! i = s ! k \<and> orders ! j = s ! k'"
proof (induction k' arbitrary: k)
  case 0
  then show ?case by simp
next
  case (Suc k')
  have d: "distinct orders" using tree by (simp add: tree_order_def)
  from chain Suc.prems(2) have "parent_edge orders parents (s ! k') (s ! Suc k')" by simp
  from parent_edge_earlier[OF tree this] obtain i j where
    ij: "j < i" "i < length orders" "orders ! i = s ! k'" "orders ! j = s ! Suc k'" by blast
  show ?case
  proof (cases "k = k'")
    case True
    with ij show ?thesis by blast
  next
    case False
    with Suc.prems have "k < k'" "k' < length s" by simp_all
    from Suc.IH[OF this] obtain i0 j0 where
      0: "j0 < i0" "i0 < length orders" "orders ! i0 = s ! k" "orders ! j0 = s ! k'" by blast
    have "j0 < length orders" using 0 by simp
    moreover have "orders ! j0 = orders ! i" using 0 ij by simp
    ultimately have "j0 = i" using d ij(2) by (simp add: nth_eq_iff_index_eq)
    with 0 ij show ?thesis by (intro exI[of _ i0] exI[of _ j]) auto
  qed
qed

lemma climb_distinct:
  assumes tree: "tree_order orders parents"
    and chain: "\<forall>k. Suc k < length s \<longrightarrow> parent_edge orders parents (s ! k) (s ! Suc k)"
  shows "distinct s"
proof -
  have d: "distinct orders" using tree by (simp add: tree_order_def)
  have "s ! k \<noteq> s ! k'" if "k < k'" "k' < length s" for k k'
  proof -
    from climb_earlier[OF tree chain that] obtain i j where
      "j < i" "i < length orders" "orders ! i = s ! k" "orders ! j = s ! k'" by blast
    then have "j < length orders" "i < length orders" "i \<noteq> j" "orders ! i = s ! k"
      "orders ! j = s ! k'" by simp_all
    then show ?thesis using d by (metis nth_eq_iff_index_eq)
  qed
  then show ?thesis
    unfolding distinct_conv_nth by (metis nat_neq_iff)
qed

lemma set_get_edges:
  "set (get_edges s None) = {(s ! k, s ! Suc k) |k. Suc k < length s}"
proof -
  have "set (get_edges s None) = (\<lambda>i. (s ! (i - 1), s ! i)) ` {1..<length s}"
    by (simp add: get_edges_def)
  also have "\<dots> = {(s ! k, s ! Suc k) |k. Suc k < length s}"
  proof (intro set_eqI iffI)
    fix e assume "e \<in> (\<lambda>i. (s ! (i - 1), s ! i)) ` {1..<length s}"
    then obtain i where "1 \<le> i" "i < length s" "e = (s ! (i - 1), s ! i)" by auto
    then show "e \<in> {(s ! k, s ! Suc k) |k. Suc k < length s}"
      by (intro CollectI exI[of _ "i - 1"]) auto
  next
    fix e assume "e \<in> {(s ! k, s ! Suc k) |k. Suc k < length s}"
    then obtain k where "Suc k < length s" "e = (s ! k, s ! Suc k)" by auto
    then show "e \<in> (\<lambda>i. (s ! (i - 1), s ! i)) ` {1..<length s}"
      by (intro image_eqI[of _ _ "Suc k"]) auto
  qed
  finally show ?thesis .
qed

lemma distinct_get_edges:
  assumes "distinct s"
  shows "distinct (get_edges s None)"
proof -
  have "inj_on (\<lambda>i. (s ! (i - 1), s ! i)) (set [1..<length s])"
    using assms by (auto simp: inj_on_def nth_eq_iff_index_eq)
  then show ?thesis by (simp add: get_edges_def distinct_map)
qed


lemma collect_paths_heads:
  assumes tree: "tree_order orders parents"
    and roots: "\<forall>v. is_root orders parents v \<longrightarrow> v \<in> set ends"
  shows "set starts \<subseteq> set orders \<Longrightarrow>
         collect_paths (make_parents_dict orders parents) ends starts = Some (Inr segs) \<Longrightarrow>
         map hd segs = filter (\<lambda>v. make_parents_dict orders parents v \<noteq> Some (- 1)) starts"
proof (induction starts arbitrary: segs)
  case Nil
  then show ?case by simp
next
  case (Cons x starts)
  then obtain i where i: "i < length orders" "x = orders ! i" by (auto simp: in_set_conv_nth)
  have sub: "set starts \<subseteq> set orders" using Cons.prems(1) by simp
  from collect_paths_tree[OF tree roots sub] obtain rest where
    rest: "collect_paths (make_parents_dict orders parents) ends starts = Some (Inr rest)" by blast
  note ih = Cons.IH[OF sub rest]
  have pd: "make_parents_dict orders parents x = Some (parents ! i)"
    using parents_dict_nth[OF tree i(1)] i(2) by simp
  show ?case
  proof (cases "parents ! i = - 1")
    case True
    with get_path_tree[OF tree roots i(1)] i(2) have
      "get_path (make_parents_dict orders parents) x ends = Some (Inr None)" by simp
    with Cons.prems(2) rest have "segs = rest" by simp
    with ih pd True show ?thesis by simp
  next
    case False
    with get_path_tree[OF tree roots i(1)] i(2) obtain ext where
      "get_path (make_parents_dict orders parents) x ends
         = Some (Inr (Some (x # parents ! i # ext)))" by auto
    with Cons.prems(2) rest have "segs = (x # parents ! i # ext) # rest" by simp
    with ih pd False show ?thesis by simp
  qed
qed

lemma distinct_start_nodes:
  assumes "distinct orders"
  shows "distinct (leaf_nodes_of orders parents @ bifurcation_nodes_of parents)"
proof -
  have "v \<in> set parents" if "v \<in> set (bifurcation_nodes_of parents)" for v
    using that by (auto simp: bifurcation_nodes_of_def counter_keys_def)
  then show ?thesis
    using assms by (auto simp: leaf_nodes_of_def bifurcation_nodes_of_def counter_keys_def)
qed

lemma segments_heads_distinct:
  assumes tree: "tree_order orders parents"
    and many: "length (leaf_nodes_of orders parents) \<noteq> 1"
    and segs: "get_all_segments orders parents = Some (Inr segs)"
  shows "distinct (map hd segs)"
proof -
  let ?pd = "make_parents_dict orders parents"
  let ?bif = "bifurcation_nodes_of parents"
  let ?roots = "filter (\<lambda>node. ?pd node = Some (- 1)) orders"
  let ?ends = "add_roots ?roots ?bif"
  let ?starts = "leaf_nodes_of orders parents @ ?bif"
  have d: "distinct orders" using tree by (simp add: tree_order_def)
  have total: "\<not> (\<exists>node\<in>set orders. ?pd node = None)"
    using parents_dict_nth[OF tree] by (auto simp: in_set_conv_nth)
  have roots: "\<forall>v. is_root orders parents v \<longrightarrow> v \<in> set ?ends"
  proof (intro allI impI)
    fix v assume r: "is_root orders parents v"
    then have "v \<in> set orders" by (auto simp: is_root_def)
    with r is_root_dict[OF tree] show "v \<in> set ?ends" by (simp add: set_add_roots)
  qed
  have sub: "set ?starts \<subseteq> set orders"
  proof
    fix v assume "v \<in> set ?starts"
    then consider "v \<in> set (leaf_nodes_of orders parents)" | "is_bifurcation parents v"
      by (auto simp: set_bifurcation_nodes)
    then show "v \<in> set orders"
    proof cases
      case 1
      then show ?thesis by (simp add: leaf_nodes_of_def)
    next
      case 2
      then have "v \<in> set parents" "v \<noteq> - 1"
        using count_list_0_iff[of parents v] by (auto simp: is_bifurcation_def)
      then show ?thesis by (rule parent_in_orders[OF tree])
    qed
  qed
  from segs many total have c: "collect_paths ?pd ?ends ?starts = Some (Inr segs)"
    by (simp add: get_all_segments_def Let_def)
  have "distinct (filter (\<lambda>v. ?pd v \<noteq> Some (- 1)) ?starts)"
    using distinct_start_nodes[OF d, of parents] by (rule distinct_filter)
  with collect_paths_heads[OF tree roots sub c] show ?thesis by simp
qed

lemma count_list_two:
  assumes "i < i'" "i' < length xs" "xs ! i = v" "xs ! i' = v"
  shows "2 \<le> count_list xs v"
proof -
  have "xs = take i' xs @ xs ! i' # drop (Suc i') xs"
    using assms(2) by (simp add: id_take_nth_drop)
  then have "count_list xs v =
      count_list (take i' xs) v + count_list (xs ! i' # drop (Suc i') xs) v"
    by (metis count_list_append)
  moreover have "v \<in> set (take i' xs)"
    using assms by (auto simp: in_set_conv_nth intro!: exI[of _ i])
  then have "0 < count_list (take i' xs) v" using count_list_0_iff[of "take i' xs" v] by auto
  ultimately show ?thesis using assms(4) by simp
qed

lemma only_child:
  assumes "\<not> is_bifurcation parents a"
    and "parent_edge orders parents c a" "parent_edge orders parents c' a"
    and "length parents = length orders"
  shows "c = c'"
proof -
  from assms(2,3) obtain i i' where
    i: "i < length orders" "orders ! i = c" "parents ! i = a" "a \<noteq> - 1"
    and i': "i' < length orders" "orders ! i' = c'" "parents ! i' = a"
    by (auto simp: parent_edge_def)
  have "i = i'"
  proof (rule ccontr)
    assume "i \<noteq> i'"
    then consider "i < i'" | "i' < i" by linarith
    then have "2 \<le> count_list parents a"
      using count_list_two[of i i' parents a] count_list_two[of i' i parents a] i i' assms(4)
      by cases auto
    with assms(1) i(4) show False by (simp add: is_bifurcation_def)
  qed
  with i i' show ?thesis by simp
qed

lemma shared_node_same_segment:
  assumes tree: "tree_order orders parents"
    and segs: "\<forall>s\<in>set segs. branch_segment orders parents s"
    and heads: "distinct (map hd segs)"
    and s: "s \<in> set segs" "s' \<in> set segs"
  shows "Suc k < length s \<Longrightarrow> Suc k' < length s' \<Longrightarrow> s ! k = s' ! k' \<Longrightarrow> s = s'"
proof (induction k arbitrary: k')
  case 0
  from segs s have b: "branch_segment orders parents s" "branch_segment orders parents s'" by auto
  show ?case
  proof (cases k')
    case 0
    with \<open>s ! 0 = s' ! k'\<close> have "hd s = hd s'"
      using b by (simp add: hd_conv_nth branch_segment_def) (metis hd_conv_nth list.size(3) not_numeral_le_zero)
    with heads s show ?thesis by (metis distinct_map inj_onD)
  next
    case (Suc j)
    have hs: "hd s = s ! 0" using "0.prems"(1) by (intro hd_conv_nth) auto
    from b(1) have st: "is_leaf orders parents (s ! 0) \<or> is_bifurcation parents (s ! 0)"
      using hs by (simp add: branch_segment_def)
    from b(2) Suc "0.prems"(2) have
      "\<not> is_bifurcation parents (s' ! k')" by (simp add: branch_segment_def)
    moreover from b(2) Suc "0.prems"(2) have "parent_edge orders parents (s' ! j) (s' ! k')"
      by (simp add: branch_segment_def)
    then have "s' ! k' \<in> set parents"
      using tree by (auto simp: parent_edge_def tree_order_def in_set_conv_nth)
    then have "\<not> is_leaf orders parents (s' ! k')" by (simp add: is_leaf_def)
    ultimately show ?thesis using st "0.prems"(3) by simp
  qed
next
  case (Suc k)
  from segs s have b: "branch_segment orders parents s" "branch_segment orders parents s'" by auto
  have len: "length parents = length orders" using tree by (simp add: tree_order_def)
  from b(1) Suc.prems(1) have
    nb: "\<not> is_bifurcation parents (s ! Suc k)"
    and pe: "parent_edge orders parents (s ! k) (s ! Suc k)" by (simp_all add: branch_segment_def)
  show ?case
  proof (cases k')
    case 0
    have hs: "hd s' = s' ! 0" using Suc.prems(2) by (intro hd_conv_nth) auto
    from b(2) have st: "is_leaf orders parents (s' ! 0) \<or> is_bifurcation parents (s' ! 0)"
      using hs by (simp add: branch_segment_def)
    from pe have "s ! Suc k \<in> set parents"
      using tree by (auto simp: parent_edge_def tree_order_def in_set_conv_nth)
    then have "\<not> is_leaf orders parents (s ! Suc k)" by (simp add: is_leaf_def)
    with nb st Suc.prems(3) 0 show ?thesis by simp
  next
    case (Suc j)
    from b(2) Suc Suc.prems(2) have pe': "parent_edge orders parents (s' ! j) (s' ! k')"
      by (simp add: branch_segment_def)
    from only_child[OF nb pe _ len] pe' Suc.prems(3) have "s ! k = s' ! j" by simp
    moreover have "Suc k < length s" "Suc j < length s'" using Suc.prems Suc by simp_all
    ultimately show ?thesis using Suc.IH by blast
  qed
qed


lemma no_edge_both_ways:
  assumes d: "distinct orders"
    and 1: "j < i" "i < length orders" "orders ! i = r" "orders ! j = c"
    and 2: "j' < i'" "i' < length orders" "orders ! i' = c" "orders ! j' = r"
  shows False
proof -
  have "j < length orders" "j' < length orders" using 1 2 by simp_all
  then have "i' = j" "j' = i" using d 1 2 by (metis nth_eq_iff_index_eq)+
  with 1 2 show False by simp
qed

lemma one_leaf_edges:
  assumes d: "distinct orders" and nn: "\<forall>v\<in>set orders. 0 \<le> v"
  shows "distinct (get_edges orders None) \<and>
         (\<forall>(r, c)\<in>set (get_edges orders None).
            0 \<le> r \<and> 0 \<le> c \<and> r \<noteq> c \<and> (c, r) \<notin> set (get_edges orders None))"
proof -
  have "0 \<le> r \<and> 0 \<le> c \<and> r \<noteq> c \<and> (c, r) \<notin> set (get_edges orders None)"
    if "(r, c) \<in> set (get_edges orders None)" for r c
  proof -
    from that obtain k where k: "Suc k < length orders" "r = orders ! k" "c = orders ! Suc k"
      by (auto simp: set_get_edges)
    have "r \<in> set orders" "c \<in> set orders" using k by simp_all
    then have "0 \<le> r" "0 \<le> c" using nn by simp_all
    moreover have "r \<noteq> c" using k d by (simp add: nth_eq_iff_index_eq)
    moreover have "(c, r) \<notin> set (get_edges orders None)"
    proof
      assume "(c, r) \<in> set (get_edges orders None)"
      then obtain k' where k': "Suc k' < length orders" "c = orders ! k'" "r = orders ! Suc k'"
        by (auto simp: set_get_edges)
      have "k < length orders" "k' < length orders" using k k' by simp_all
      then have "Suc k = k'" "k = Suc k'" using d k k' by (metis nth_eq_iff_index_eq)+
      then show False by simp
    qed
    ultimately show ?thesis by simp
  qed
  with distinct_get_edges[OF d] show ?thesis by blast
qed

lemma tree_edges_conflict_free:
  assumes tree: "tree_order orders parents"
    and segs: "get_all_segments orders parents = Some (Inr segs)"
    and nn: "\<forall>v\<in>set orders. 0 \<le> v"
  shows "distinct (concat (map (\<lambda>s. get_edges s None) segs)) \<and>
         (\<forall>(r, c)\<in>set (concat (map (\<lambda>s. get_edges s None) segs)).
            0 \<le> r \<and> 0 \<le> c \<and> r \<noteq> c \<and>
            (c, r) \<notin> set (concat (map (\<lambda>s. get_edges s None) segs)))"
proof (cases "length (leaf_nodes_of orders parents) = 1")
  case True
  have d: "distinct orders" using tree by (simp add: tree_order_def)
  from True segs have "segs = [orders]" by (simp add: get_all_segments_def)
  with one_leaf_edges[OF d nn] show ?thesis by simp
next
  case False
  let ?E = "concat (map (\<lambda>s. get_edges s None) segs)"
  have d: "distinct orders" using tree by (simp add: tree_order_def)
  from segments_many_leaves[OF tree False] segs have
    b: "\<forall>s\<in>set segs. branch_segment orders parents s" by auto
  note heads = segments_heads_distinct[OF tree False segs]
  have chain: "\<forall>k. Suc k < length s \<longrightarrow> parent_edge orders parents (s ! k) (s ! Suc k)"
    if "s \<in> set segs" for s using b that by (simp add: branch_segment_def)
  have edge: "parent_edge orders parents r c" if "(r, c) \<in> set ?E" for r c
    using that chain by (auto simp: set_get_edges)
  have props: "0 \<le> r \<and> 0 \<le> c \<and> r \<noteq> c \<and> (c, r) \<notin> set ?E" if rc: "(r, c) \<in> set ?E" for r c
  proof -
    from parent_edge_earlier[OF tree edge[OF rc]] obtain i j where
      ij: "j < i" "i < length orders" "orders ! i = r" "orders ! j = c" by blast
    then have "r \<in> set orders" "c \<in> set orders" by auto
    then have "0 \<le> r" "0 \<le> c" using nn by simp_all
    moreover have "r \<noteq> c" using ij d by (auto simp: nth_eq_iff_index_eq)
    moreover have "(c, r) \<notin> set ?E"
    proof
      assume "(c, r) \<in> set ?E"
      from parent_edge_earlier[OF tree edge[OF this]] obtain i' j' where
        "j' < i'" "i' < length orders" "orders ! i' = c" "orders ! j' = r" by blast
      with no_edge_both_ways[OF d ij] show False by blast
    qed
    ultimately show ?thesis by simp
  qed
  have share: "s = s'" if "s \<in> set segs" "s' \<in> set segs"
    "e \<in> set (get_edges s None)" "e \<in> set (get_edges s' None)" for s s' e
  proof -
    from that(3,4) obtain k k' where
      "Suc k < length s" "e = (s ! k, s ! Suc k)" "Suc k' < length s'" "e = (s' ! k', s' ! Suc k')"
      by (auto simp: set_get_edges)
    then show ?thesis
      using shared_node_same_segment[OF tree b heads that(1,2), of k k'] by simp
  qed
  have nonempty: "get_edges s None \<noteq> []" if "s \<in> set segs" for s
  proof -
    from b that have "2 \<le> length s" by (simp add: branch_segment_def)
    then have "1 < length s" by simp
    then show ?thesis by (simp add: get_edges_def del: upt_eq_Nil_conv) auto
  qed
  have inj: "inj_on (\<lambda>s. get_edges s None) (set segs)"
  proof (rule inj_onI)
    fix s s' assume s: "s \<in> set segs" "s' \<in> set segs" "get_edges s None = get_edges s' None"
    from nonempty[OF s(1)] obtain e where "e \<in> set (get_edges s None)"
      by (cases "get_edges s None") auto
    with s share show "s = s'" by metis
  qed
  have "distinct segs" using heads by (simp add: distinct_map)
  then have 1: "distinct (map (\<lambda>s. get_edges s None) segs)" using inj by (simp add: distinct_map)
  have 2: "distinct ys" if "ys \<in> set (map (\<lambda>s. get_edges s None) segs)" for ys
  proof -
    from that obtain s where s: "s \<in> set segs" "ys = get_edges s None" by auto
    from climb_distinct[OF tree chain[OF s(1)]] s(2) show ?thesis by (simp add: distinct_get_edges)
  qed
  have 3: "set ys \<inter> set zs = {}"
    if "ys \<in> set (map (\<lambda>s. get_edges s None) segs)" "zs \<in> set (map (\<lambda>s. get_edges s None) segs)"
      "ys \<noteq> zs" for ys zs
  proof -
    from that obtain s s' where s: "s \<in> set segs" "ys = get_edges s None"
      "s' \<in> set segs" "zs = get_edges s' None" by auto
    show ?thesis
    proof (rule ccontr)
      assume "set ys \<inter> set zs \<noteq> {}"
      then obtain e where "e \<in> set ys" "e \<in> set zs" by auto
      with s share have "s = s'" by metis
      with s that(3) show False by simp
    qed
  qed
  have "distinct ?E" by (rule distinct_concat[OF 1 2 3])
  with props show ?thesis by blast
qed

lemma snd_events_of:
  "map snd (events_of ctm segs) = concat (map (\<lambda>s. get_edges s None) segs)"
  by (induction segs) (simp_all add: events_of_def comp_def)

section \<open>The scores of a segment\<close>

lemma np_index_Inr: "np_index n r = Inr i \<Longrightarrow> i < n"
  by (auto simp: np_index_def split: if_splits)

lemma lookup2_Inr:
  assumes "lookup2 M r c = Inr x"
  shows "\<exists>i j. i < length M \<and> j < length (M ! i) \<and> x = M ! i ! j"
proof -
  from assms obtain i where i: "np_index (length M) r = Inr i"
    by (cases "np_index (length M) r") (auto simp: lookup2_def)
  with assms obtain j where j: "np_index (length (M ! i)) c = Inr j" "x = M ! i ! j"
    by (cases "np_index (length (M ! i)) c") (auto simp: lookup2_def)
  with i np_index_Inr show ?thesis by blast
qed

lemma lookup2_map:
  "lookup2 (map (map f) M) r c = (case lookup2 M r c of Inl e \<Rightarrow> Inl e | Inr x \<Rightarrow> Inr (f x))"
  by (auto simp: lookup2_def np_index_def split: sum.splits if_splits)

lemma clean_log1p:
  "0 \<le> p \<Longrightarrow> nan_to_num (zero_inf (np_log1p (Fin p))) = Fin (ln (1 + p))"
  by (simp add: zero_inf_def)

lemma clean_Fin: "\<exists>v. nan_to_num (zero_inf x) = Fin v"
  by (cases x) (auto simp: zero_inf_def)

lemma cumsum_from_Fin:
  "vs \<noteq> [] \<Longrightarrow> cumsum_from (Fin s) (map Fin vs) \<noteq> [] \<and>
     last (cumsum_from (Fin s) (map Fin vs)) = Fin (s + sum_list vs)"
proof (induction vs arbitrary: s)
  case Nil
  then show ?case by simp
next
  case (Cons v vs)
  show ?case
  proof (cases "vs = []")
    case True
    then show ?thesis by simp
  next
    case False
    from Cons.IH[OF False, of "s + v"] show ?thesis by (simp add: add.assoc)
  qed
qed

lemma sequence_map_Inr:
  "sequence (map f xs) = Inr vs \<Longrightarrow> vs = map (\<lambda>x. case f x of Inr v \<Rightarrow> v) xs \<and>
     (\<forall>x\<in>set xs. \<exists>v. f x = Inr v)"
proof (induction xs arbitrary: vs)
  case Nil
  then show ?case by simp
next
  case (Cons x xs)
  then show ?case by (cases "f x") (auto split: sum.splits)
qed

lemma segment_probability_last:
  assumes "calculate_segment_probability ctm edges = Inr segment_p" "edges \<noteq> []"
  shows "segment_p \<noteq> [] \<and> (\<exists>x. last segment_p = Fin x) \<and>
         (probabilities ctm \<longrightarrow> last segment_p = Fin (log1p_score ctm edges))"
proof -
  let ?f = "\<lambda>x. nan_to_num (zero_inf (np_log1p x))"
  let ?g = "\<lambda>(r, c). lookup2 (log_transition ctm) r c"
  from assms(1) obtain picked where
    p: "sequence (map ?g edges) = Inr picked" and sp: "segment_p = cumsum picked"
    by (auto simp: calculate_segment_probability_def Let_def split: sum.splits)
  from sequence_map_Inr[OF p] have
    picked: "picked = map (\<lambda>e. case ?g e of Inr v \<Rightarrow> v) edges"
    and ok: "\<forall>e\<in>set edges. \<exists>v. ?g e = Inr v" by auto
  define val where "val e = (case ?g e of Inr (Fin v) \<Rightarrow> v)" for e
  have fin: "(case ?g e of Inr v \<Rightarrow> v) = Fin (val e)" if "e \<in> set edges" for e
  proof -
    obtain r c where e: "e = (r, c)" by (cases e)
    from ok that e obtain v where v: "lookup2 (log_transition ctm) r c = Inr v" by auto
    then obtain x where "lookup2 ctm r c = Inr x" "v = ?f x"
      by (auto simp: log_transition_def lookup2_map split: sum.splits)
    with clean_Fin[of "np_log1p x"] obtain w where "v = Fin w" by auto
    with v e show ?thesis by (simp add: val_def)
  qed
  then have pm: "picked = map Fin (map val edges)" unfolding picked by simp
  from cumsum_from_Fin[of "map val edges" 0] assms(2) have
    l: "segment_p \<noteq> []" "last segment_p = Fin (sum_list (map val edges))"
    by (simp_all add: sp pm cumsum_def)
  have "sum_list (map val edges) = log1p_score ctm edges" if pr: "probabilities ctm"
  proof -
    have "val e = (case e of (a, b) \<Rightarrow> ln (1 + probability ctm a b))" if "e \<in> set edges" for e
    proof -
      obtain r c where e: "e = (r, c)" by (cases e)
      from ok that e obtain v where v: "lookup2 (log_transition ctm) r c = Inr v" by auto
      then obtain x where x: "lookup2 ctm r c = Inr x" "v = ?f x"
        by (auto simp: log_transition_def lookup2_map split: sum.splits)
      from lookup2_Inr[OF x(1)] obtain i j where "i < length ctm" "j < length (ctm ! i)" "x = ctm ! i ! j"
        by blast
      then have "ctm ! i \<in> set ctm" "x \<in> set (ctm ! i)" by simp_all
      with pr have "case x of Fin p \<Rightarrow> 0 \<le> p | _ \<Rightarrow> False"
        by (auto simp: probabilities_def list_all_iff)
      then obtain q where q: "x = Fin q" "0 \<le> q" by (cases x) auto
      then have "v = Fin (ln (1 + q))" using x(2) clean_log1p by simp
      with v x(1) q e show ?thesis by (simp add: val_def probability_def)
    qed
    then have "map val edges = map (\<lambda>(a, b). ln (1 + probability ctm a b)) edges"
      by (intro map_cong refl)
    then show ?thesis unfolding log1p_score_def by (rule arg_cong)
  qed
  with l show ?thesis by auto
qed


lemma segment_probability_empty: "calculate_segment_probability ctm [] = Inr []"
  by (simp add: calculate_segment_probability_def cumsum_def)

lemma segment_direction_scores:
  assumes "segment_direction ctm s = Inr dir"
  shows "\<exists>p q x y.
           calculate_segment_probability ctm (get_edges s None) = Inr p \<and>
           calculate_segment_probability ctm (get_edges (rev s) None) = Inr q \<and>
           last p = Fin x \<and> last q = Fin y \<and>
           dir = (if y < x then Forward else if x < y then Reversed else Undecided) \<and>
           (probabilities ctm \<longrightarrow> x = log1p_score ctm (get_edges s None) \<and>
                                   y = log1p_score ctm (get_edges (rev s) None))"
proof -
  from assms obtain p q where
    p: "calculate_segment_probability ctm (get_edges s None) = Inr p" "p \<noteq> []"
    and q: "calculate_segment_probability ctm (get_edges (rev s) None) = Inr q" "q \<noteq> []"
    and dir: "dir = (if np_less (last q) (last p) then Forward
                     else if np_less (last p) (last q) then Reversed else Undecided)"
    by (auto simp: segment_direction_def Let_def last_score_def split: sum.splits if_splits)
  have "get_edges s None \<noteq> []" using p segment_probability_empty[of ctm] by auto
  from segment_probability_last[OF p(1) this] obtain x where
    x: "last p = Fin x" "probabilities ctm \<longrightarrow> x = log1p_score ctm (get_edges s None)" by auto
  have "get_edges (rev s) None \<noteq> []" using q segment_probability_empty[of ctm] by auto
  from segment_probability_last[OF q(1) this] obtain y where
    y: "last q = Fin y" "probabilities ctm \<longrightarrow> y = log1p_score ctm (get_edges (rev s) None)" by auto
  from p q x y dir show ?thesis by auto
qed

lemma read_inputs_Inr:
  assumes "read_inputs adata key = Inr (tm, R, orders, parents, vt)"
  shows "obsp adata (key @ ''_transition_matrix'') = Some tm \<and>
         (\<exists>co. uns adata ''cell_order'' = Some (CellOrder co) \<and> co_R co = Some R \<and>
               co_centers_minSpanningTree co = Some vt) \<and>
         (\<forall>v\<in>set orders. 0 \<le> v)"
  using assms
  unfolding read_inputs_def Let_def
  by (auto split: if_splits option.splits sum.splits uns_val.splits simp: argsort_def)

lemma construct_oriented:
  assumes run: "construct_velocity_tree adata key = Some (Inr d, adata')"
    and inputs: "read_inputs adata key = Inr (tm, R, orders, parents, vt)"
    and tree: "tree_order orders parents"
    and alloc: "allocated adata" and rect: "wf_mat (heap adata vt)"
    and segs: "get_all_segments orders parents = Some (Inr segments)"
    and ctm: "compute_center_transition_matrix (fetch_transition adata tm) (heap adata R) = Inr ctm"
    and seg: "segment \<in> set segments" and edge: "(r, c) \<in> set (get_edges segment None)"
  shows "segment_direction ctm segment = Inr (direction_of ctm segment) \<and>
         oriented (direction_of ctm segment) (heap adata vt) (heap adata' d) r c"
proof -
  from read_inputs_Inr[OF inputs] obtain co where
    tm: "obsp adata (key @ ''_transition_matrix'') = Some tm"
    and co: "uns adata ''cell_order'' = Some (CellOrder co)" "co_R co = Some R"
      "co_centers_minSpanningTree co = Some vt"
    and nn: "\<forall>v\<in>set orders. 0 \<le> v" by blast
  from alloc co have a: "R < next_free adata" "vt < next_free adata"
    unfolding allocated_def by blast+
  have ft: "fetch_transition (snd (copy_array vt adata)) tm = fetch_transition adata tm"
  proof (cases tm)
    case (DenseRef x)
    with alloc tm have "x < next_free adata" unfolding allocated_def by blast
    with DenseRef show ?thesis by (simp add: fetch_transition_def copy_array_def)
  next
    case (SparseVal S)
    then show ?thesis by (simp add: fetch_transition_def)
  qed
  have hR: "heap (snd (copy_array vt adata)) R = heap adata R"
    using a by (simp add: copy_array_def)
  from construct_velocity_tree_success[OF run] inputs segs ctm ft hR obtain h where
    loop: "orient_segments ctm vt d segments (heap (snd (copy_array vt adata))) = (None, h)"
    and d: "d = next_free adata"
    and a': "adata' = (snd (copy_array vt adata))
                      \<lparr>heap := h, uns := (uns adata)(''directed_velocity_tree'' \<mapsto> ArrayRef d)\<rparr>"
    by auto
  let ?h0 = "(heap adata)(d := heap adata vt)"
  have h0: "heap (snd (copy_array vt adata)) = ?h0" using d by (simp add: copy_array_def)
  have vd: "vt \<noteq> d" using a d by simp
  have wf0: "wf_mat (?h0 d)" using rect by simp
  from orient_segments_events[OF loop[unfolded h0]] have
    dirs: "\<forall>s\<in>set segments. segment_direction ctm s = Inr (direction_of ctm s)"
    and ev: "run_events vt d (events_of ctm segments) ?h0 = (None, h)" by auto
  from tree_edges_conflict_free[OF tree segs nn] have
    cf: "distinct (map snd (events_of ctm segments))"
    "\<forall>(r, c)\<in>set (map snd (events_of ctm segments)).
        0 \<le> r \<and> 0 \<le> c \<and> r \<noteq> c \<and> (c, r) \<notin> set (map snd (events_of ctm segments))"
    by (simp_all add: snd_events_of)
  have 1: "\<forall>(dir, r, c)\<in>set (events_of ctm segments). 0 \<le> r \<and> 0 \<le> c \<and> r \<noteq> c"
    using cf(2) by force
  have 2: "\<forall>(r, c)\<in>snd ` set (events_of ctm segments). (c, r) \<notin> snd ` set (events_of ctm segments)"
  proof -
    have False if "(r', c') \<in> snd ` set (events_of ctm segments)"
      "(c', r') \<in> snd ` set (events_of ctm segments)" for r' c'
    proof -
      from that(1) have "(r', c') \<in> set (map snd (events_of ctm segments))" by simp
      with cf(2) have "(c', r') \<notin> set (map snd (events_of ctm segments))" by blast
      with that(2) show False by simp
    qed
    then show ?thesis by blast
  qed
  have 3: "(direction_of ctm segment, r, c) \<in> set (events_of ctm segments)"
    using seg edge by (auto simp: events_of_def)
  from run_events_oriented[OF ev vd wf0 1 cf(1) 2 3]
  have "oriented (direction_of ctm segment) (?h0 vt) (h d) r c" .
  moreover have "?h0 vt = heap adata vt" using vd by simp
  moreover have "heap adata' d = h d" using a' by simp
  ultimately show ?thesis using dirs seg by simp
qed


section \<open>The directed tree\<close>

text \<open>
  Claim C7. The data object holds a tree in traversal order, its arrays are allocated and
  the spanning tree array is rectangular; the call succeeds. Then for every segment and
  every edge pair \<open>(r, c)\<close> of it, with \<open>x\<close> and \<open>y\<close> the last entries of the forward and of
  the reversed cumulative scores: when \<open>x = y\<close> the returned array has the original
  entries of the undirected tree at \<open>(r, c)\<close> and \<open>(c, r)\<close>; when \<open>y < x\<close> its entry \<open>(r, c)\<close>
  is the larger of the two weights and its entry \<open>(c, r)\<close> is zero; when \<open>x < y\<close> its entry
  \<open>(c, r)\<close> is the larger of the two weights and its entry \<open>(r, c)\<close> is zero.
\<close>

theorem construct_velocity_tree_entries:
  assumes run: "construct_velocity_tree adata key = Some (Inr d, adata')"
    and inputs: "read_inputs adata key = Inr (tm, R, orders, parents, vt)"
    and tree: "tree_order orders parents"
    and alloc: "allocated adata" and rect: "wf_mat (heap adata vt)"
    and segs: "get_all_segments orders parents = Some (Inr segments)"
    and ctm: "compute_center_transition_matrix (fetch_transition adata tm) (heap adata R) = Inr ctm"
    and seg: "segment \<in> set segments" and edge: "(r, c) \<in> set (get_edges segment None)"
  shows "\<exists>segment_p segment_p_reversed x y.
           calculate_segment_probability ctm (get_edges segment None) = Inr segment_p \<and>
           calculate_segment_probability ctm (get_edges (rev segment) None)
             = Inr segment_p_reversed \<and>
           last segment_p = Fin x \<and> last segment_p_reversed = Fin y \<and>
           (x = y \<longrightarrow> oriented Undecided (heap adata vt) (heap adata' d) r c) \<and>
           (y < x \<longrightarrow> oriented Forward (heap adata vt) (heap adata' d) r c) \<and>
           (x < y \<longrightarrow> oriented Reversed (heap adata vt) (heap adata' d) r c)"
proof -
  from construct_oriented[OF assms] have
    dir: "segment_direction ctm segment = Inr (direction_of ctm segment)"
    and ori: "oriented (direction_of ctm segment) (heap adata vt) (heap adata' d) r c" by auto
  from segment_direction_scores[OF dir] obtain p q x y where
    s: "calculate_segment_probability ctm (get_edges segment None) = Inr p"
       "calculate_segment_probability ctm (get_edges (rev segment) None) = Inr q"
       "last p = Fin x" "last q = Fin y"
       "direction_of ctm segment = (if y < x then Forward else if x < y then Reversed else Undecided)"
    by blast
  from s(5) ori have
    "x = y \<longrightarrow> oriented Undecided (heap adata vt) (heap adata' d) r c"
    "y < x \<longrightarrow> oriented Forward (heap adata vt) (heap adata' d) r c"
    "x < y \<longrightarrow> oriented Reversed (heap adata vt) (heap adata' d) r c"
    by (auto split: if_splits)
  with s(1-4) show ?thesis by blast
qed


text \<open>
  Claim C4, amended. Under the same conditions, for an edge pair \<open>(r, c)\<close> of a segment:
  when the final forward and reversed scores of the segment differ and the larger of
  the two weights of the edge is not zero, exactly one of the entries \<open>(r, c)\<close> and
  \<open>(c, r)\<close> of the returned array is not zero; when the scores are equal both entries
  are the original ones.
\<close>

theorem directed_edge_one_way:
  assumes run: "construct_velocity_tree adata key = Some (Inr d, adata')"
    and inputs: "read_inputs adata key = Inr (tm, R, orders, parents, vt)"
    and tree: "tree_order orders parents"
    and alloc: "allocated adata" and rect: "wf_mat (heap adata vt)"
    and segs: "get_all_segments orders parents = Some (Inr segments)"
    and ctm: "compute_center_transition_matrix (fetch_transition adata tm) (heap adata R) = Inr ctm"
    and seg: "segment \<in> set segments" and edge: "(r, c) \<in> set (get_edges segment None)"
    and fwd: "calculate_segment_probability ctm (get_edges segment None) = Inr segment_p"
    and bwd: "calculate_segment_probability ctm (get_edges (rev segment) None)
                = Inr segment_p_reversed"
  shows "(last segment_p \<noteq> last segment_p_reversed \<longrightarrow>
          max (entry (heap adata vt) (nat r) (nat c)) (entry (heap adata vt) (nat c) (nat r)) \<noteq> 0 \<longrightarrow>
            (entry (heap adata' d) (nat r) (nat c) \<noteq> 0 \<and> entry (heap adata' d) (nat c) (nat r) = 0) \<or>
            (entry (heap adata' d) (nat r) (nat c) = 0 \<and> entry (heap adata' d) (nat c) (nat r) \<noteq> 0)) \<and>
         (last segment_p = last segment_p_reversed \<longrightarrow>
            entry (heap adata' d) (nat r) (nat c) = entry (heap adata vt) (nat r) (nat c) \<and>
            entry (heap adata' d) (nat c) (nat r) = entry (heap adata vt) (nat c) (nat r))"
proof -
  from construct_oriented[OF run inputs tree alloc rect segs ctm seg edge] have
    dir: "segment_direction ctm segment = Inr (direction_of ctm segment)"
    and ori: "oriented (direction_of ctm segment) (heap adata vt) (heap adata' d) r c" by auto
  from segment_direction_scores[OF dir] fwd bwd obtain x y where
    s: "last segment_p = Fin x" "last segment_p_reversed = Fin y"
       "direction_of ctm segment = (if y < x then Forward else if x < y then Reversed else Undecided)"
    by auto
  show ?thesis
  proof (cases "x = y")
    case True
    with s ori show ?thesis by (simp add: oriented_def)
  next
    case False
    then consider "y < x" | "x < y" by linarith
    then show ?thesis
    proof cases
      case 1
      with s ori False show ?thesis by (auto simp: oriented_def)
    next
      case 2
      with s ori False show ?thesis by (auto simp: oriented_def)
    qed
  qed
qed

subsection \<open>The small data object, evaluated\<close>

lemma tiny_inputs:
  "read_inputs (tiny_adata T tiny_cell_order) ''pearson'' = Inr (DenseRef 0, 1, [0, 1], [- 1, 0], 2)"
  by (simp add: read_inputs_def tiny_adata_def tiny_cell_order_def tiny_order index1_def
      np_index_def Let_def)

lemma tiny_tree: "tree_order [0, 1] [- 1, 0]"
  by (simp add: tree_order_def)

lemma tiny_allocated: "allocated (tiny_adata T tiny_cell_order)"
  by (auto simp: allocated_def tiny_adata_def tiny_cell_order_def split: if_splits)

lemma tiny_rect: "wf_mat (heap (tiny_adata T tiny_cell_order) 2)"
  by (simp add: tiny_adata_def tree2_def wf_mat_def)

lemma tiny_center:
  "compute_center_transition_matrix (fetch_transition (tiny_adata T tiny_cell_order) (DenseRef 0))
     (heap (tiny_adata T tiny_cell_order) 1) = compute_center_transition_matrix (DenseT T) identity2"
  by (simp add: fetch_transition_def tiny_adata_def)

lemma one_way2_scores:
  "calculate_segment_probability [[Fin 0, Fin 1], [Fin 0, Fin 0]] (get_edges [0, 1] None)
     = Inr [Fin (ln 2)]"
  "calculate_segment_probability [[Fin 0, Fin 1], [Fin 0, Fin 0]] (get_edges (rev [0, 1]) None)
     = Inr [Fin 0]"
  by (simp_all add: tiny_edges calculate_segment_probability_def
      log_transition_def lookup2_def np_index_def zero_inf_def cumsum_def Let_def)

lemma zero_scores:
  "calculate_segment_probability [[Fin 0, Fin 0], [Fin 0, Fin 0]] (get_edges [0, 1] None)
     = Inr [Fin 0]"
  "calculate_segment_probability [[Fin 0, Fin 0], [Fin 0, Fin 0]] (get_edges (rev [0, 1]) None)
     = Inr [Fin 0]"
  by (simp_all add: tiny_edges calculate_segment_probability_def
      log_transition_def lookup2_def np_index_def zero_inf_def cumsum_def Let_def)

lemma identity2_direction:
  "segment_direction [[Fin 0, Fin 0], [Fin 0, Fin 0]] [0, 1] = Inr Undecided"
  using zero_scores by (simp add: segment_direction_def last_score_def Let_def)

lemma identity2_loop:
  assumes "h 2 = tree2"
  shows "orient_segments [[Fin 0, Fin 0], [Fin 0, Fin 0]] 2 3 [[0, 1]] (h(3 := tree2))
         = (None, h(3 := tree2))"
  using assms
  by (simp add: identity2_direction tiny_edges and_then_def store_copy_def
      read_at_def write_at_def np_index_def nrows_def entry_def set_entry_def tree2_def)

lemma identity2_run:
  "construct_velocity_tree (tiny_adata identity2 tiny_cell_order) ''pearson'' =
     Some (Inr 3, tiny_result identity2 tree2)"
  unfolding construct_velocity_tree_def tiny_inputs
  by (simp add: tiny_segments copy_array_def
      fetch_transition_def tiny_adata_def tiny_result_def tiny_cell_order_def
      identity2_value identity2_loop del: orient_segments.simps)


lemma one_way2_center:
  "compute_center_transition_matrix (fetch_transition (tiny_adata one_way2 tiny_cell_order) (DenseRef 0))
     (heap (tiny_adata one_way2 tiny_cell_order) 1) = Inr [[Fin 0, Fin 1], [Fin 0, Fin 0]]"
  unfolding tiny_center by (rule one_way2_value)

lemma tiny_member: "[0, 1] \<in> set [[0, 1 :: int]]" "(0, 1) \<in> set (get_edges [0, 1] None)"
  by (simp_all add: tiny_edges)



lemma one_way2_heaps:
  "heap (tiny_adata one_way2 tiny_cell_order) 2 = tree2"
  "heap (tiny_result one_way2 \<lparr>ncols = 2, rows = [[0, 3], [0, 0]]\<rparr>) 3
     = \<lparr>ncols = 2, rows = [[0, 3], [0, 0]]\<rparr>"
  by (simp_all add: tiny_adata_def tiny_result_def)

theorem construct_velocity_tree_entries_witness:
  "construct_velocity_tree (tiny_adata one_way2 tiny_cell_order) ''pearson'' =
     Some (Inr 3, tiny_result one_way2 \<lparr>ncols = 2, rows = [[0, 3], [0, 0]]\<rparr>) \<and>
   read_inputs (tiny_adata one_way2 tiny_cell_order) ''pearson''
     = Inr (DenseRef 0, 1, [0, 1], [- 1, 0], 2) \<and>
   tree_order [0, 1] [- 1, 0] \<and>
   allocated (tiny_adata one_way2 tiny_cell_order) \<and>
   wf_mat (heap (tiny_adata one_way2 tiny_cell_order) 2) \<and>
   get_all_segments [0, 1] [- 1, 0] = Some (Inr [[0, 1]]) \<and>
   calculate_segment_probability [[Fin 0, Fin 1], [Fin 0, Fin 0]] (get_edges [0, 1] None)
     = Inr [Fin (ln 2)] \<and>
   calculate_segment_probability [[Fin 0, Fin 1], [Fin 0, Fin 0]] (get_edges (rev [0, 1]) None)
     = Inr [Fin 0] \<and>
   oriented Forward tree2 \<lparr>ncols = 2, rows = [[0, 3], [0, 0]]\<rparr> 0 1"
proof -
  from construct_velocity_tree_entries[OF one_way2_run tiny_inputs tiny_tree tiny_allocated
      tiny_rect tiny_segments one_way2_center tiny_member]
  obtain x y where
    "Fin (ln 2) = Fin x" "Fin 0 = Fin y"
    "y < x \<longrightarrow> oriented Forward (heap (tiny_adata one_way2 tiny_cell_order) 2)
        (heap (tiny_result one_way2 \<lparr>ncols = 2, rows = [[0, 3], [0, 0]]\<rparr>) 3) 0 1"
    unfolding one_way2_scores by auto
  moreover have "0 < ln (2::real)" by simp
  ultimately have "oriented Forward tree2 \<lparr>ncols = 2, rows = [[0, 3], [0, 0]]\<rparr> 0 1"
    by (simp add: one_way2_heaps)
  with one_way2_run tiny_inputs tiny_tree tiny_allocated tiny_rect tiny_segments one_way2_scores
  show ?thesis by simp
qed



theorem directed_edge_one_way_witness:
  "construct_velocity_tree (tiny_adata one_way2 tiny_cell_order) ''pearson'' =
     Some (Inr 3, tiny_result one_way2 \<lparr>ncols = 2, rows = [[0, 3], [0, 0]]\<rparr>) \<and>
   tree_order [0, 1] [- 1, 0] \<and>
   allocated (tiny_adata one_way2 tiny_cell_order) \<and>
   last [Fin (ln 2)] \<noteq> last [Fin 0] \<and>
   max (entry tree2 (nat 0) (nat 1)) (entry tree2 (nat 1) (nat 0)) \<noteq> 0 \<and>
   ((entry \<lparr>ncols = 2, rows = [[0, 3], [0, 0]]\<rparr> (nat 0) (nat 1) \<noteq> 0 \<and>
     entry \<lparr>ncols = 2, rows = [[0, 3], [0, 0]]\<rparr> (nat 1) (nat 0) = 0) \<or>
    (entry \<lparr>ncols = 2, rows = [[0, 3], [0, 0]]\<rparr> (nat 0) (nat 1) = 0 \<and>
     entry \<lparr>ncols = 2, rows = [[0, 3], [0, 0]]\<rparr> (nat 1) (nat 0) \<noteq> 0))"
proof -
  have 1: "last [Fin (ln 2)] \<noteq> last [Fin 0]" by simp
  have 2: "max (entry tree2 (nat 0) (nat 1)) (entry tree2 (nat 1) (nat 0)) \<noteq> 0"
    by (simp add: entry_def tree2_def)
  from directed_edge_one_way[OF one_way2_run tiny_inputs tiny_tree tiny_allocated
      tiny_rect tiny_segments one_way2_center tiny_member one_way2_scores] 1 2
  have "(entry \<lparr>ncols = 2, rows = [[0, 3], [0, 0]]\<rparr> (nat 0) (nat 1) \<noteq> 0 \<and>
     entry \<lparr>ncols = 2, rows = [[0, 3], [0, 0]]\<rparr> (nat 1) (nat 0) = 0) \<or>
    (entry \<lparr>ncols = 2, rows = [[0, 3], [0, 0]]\<rparr> (nat 0) (nat 1) = 0 \<and>
     entry \<lparr>ncols = 2, rows = [[0, 3], [0, 0]]\<rparr> (nat 1) (nat 0) \<noteq> 0)"
    unfolding one_way2_heaps by blast
  with one_way2_run tiny_tree tiny_allocated 1 2 show ?thesis by blast
qed

text \<open>
  Claim C4 as stated fails on a tie. With the identity as transition matrix both
  scores of the only segment are zero, and the edge between center 0 and center 1 keeps
  its weight in both directions.
\<close>

theorem tie_keeps_both_directions:
  "construct_velocity_tree (tiny_adata identity2 tiny_cell_order) ''pearson'' =
     Some (Inr 3, tiny_result identity2 tree2) \<and>
   entry (heap (tiny_adata identity2 tiny_cell_order) 2) 0 1 = 3 \<and>
   entry (heap (tiny_result identity2 tree2) 3) 0 1 = 3 \<and>
   entry (heap (tiny_result identity2 tree2) 3) 1 0 = 3"
proof -
  have "entry (heap (tiny_adata identity2 tiny_cell_order) 2) 0 1 = 3"
    "entry (heap (tiny_result identity2 tree2) 3) 0 1 = 3"
    "entry (heap (tiny_result identity2 tree2) 3) 1 0 = 3"
    by (simp_all add: tiny_adata_def tiny_result_def entry_def tree2_def)
  with identity2_run show ?thesis by simp
qed

section \<open>The object that scribe returns\<close>


















end
